theory Spec2Isabelle
  imports Main "HOL-Library.Sublist" "HOL-Library.AList"
begin

section \<open>Data model\<close>

text \<open>
  The development embeds the mutation-event emitter of \<^verbatim>\<open>src/Model/events.js\<close> and the
  document reference lifecycle of \<^verbatim>\<open>src/Model/subscriptions.ts\<close>.

  A JavaScript object used as a key/value bag (a \<^verbatim>\<open>Passed\<close> context) is an association
  list of its own keys in insertion order. Document values are of an arbitrary type \<open>'v\<close>.
\<close>

type_synonym 'v passed = "(string \<times> 'v) list"

text \<open>The six mutation events of \<^verbatim>\<open>exports.mutationEvents\<close>, with their constructor arguments.\<close>

datatype 'v event =
    ChangeEvent 'v 'v "'v passed"
  | LoadEvent 'v "'v passed"
  | UnloadEvent 'v "'v passed"
  | InsertEvent int "'v list" "'v passed"
  | RemoveEvent int "'v list" "'v passed"
  | MoveEvent int int int "'v passed"

text \<open>\<^verbatim>\<open>Event.prototype.type\<close> and \<^verbatim>\<open>Event.prototype._immediateType\<close>.\<close>

fun etype :: "'v event \<Rightarrow> string" where
  "etype (ChangeEvent v p c) = ''change''"
| "etype (LoadEvent v c) = ''load''"
| "etype (UnloadEvent p c) = ''unload''"
| "etype (InsertEvent i vs c) = ''insert''"
| "etype (RemoveEvent i vs c) = ''remove''"
| "etype (MoveEvent f t h c) = ''move''"

fun immediateType :: "'v event \<Rightarrow> string" where
  "immediateType (ChangeEvent v p c) = ''changeImmediate''"
| "immediateType (LoadEvent v c) = ''loadImmediate''"
| "immediateType (UnloadEvent p c) = ''unloadImmediate''"
| "immediateType (InsertEvent i vs c) = ''insertImmediate''"
| "immediateType (RemoveEvent i vs c) = ''removeImmediate''"
| "immediateType (MoveEvent f t h c) = ''moveImmediate''"

text \<open>
  Values that can be thrown. \<open>ErrorObj m d\<close> is an instance of \<^verbatim>\<open>Error\<close> with message \<open>m\<close>
  and \<^verbatim>\<open>data\<close> property \<open>d\<close>; \<open>StringVal\<close> is a string; \<open>OtherVal m d\<close> is any other truthy
  value, with \<open>m\<close> its \<^verbatim>\<open>message\<close> property when that is truthy and the empty string
  otherwise; \<open>FalsyVal\<close> is one of \<^verbatim>\<open>false\<close>, \<^verbatim>\<open>0\<close> and \<^verbatim>\<open>NaN\<close>; \<open>NullVal\<close> and \<open>UndefinedVal\<close>
  are \<^verbatim>\<open>null\<close> and \<^verbatim>\<open>undefined\<close>, the two values whose properties cannot be read.

  A \<^verbatim>\<open>data\<close> property is \<open>None\<close> when it is absent or falsy. A truthy one is told apart by
  what \<^verbatim>\<open>JSON.stringify\<close> does with it: \<open>Json t\<close> when it returns the text \<open>t\<close>, \<open>NotJson\<close>
  when it returns \<^verbatim>\<open>undefined\<close> (a function, a symbol), \<open>Cyclic\<close> when it throws.

  A message is a concatenation of parts: literal text, and the text that
  \<^verbatim>\<open>JSON.stringify(queue, null, 2)\<close> gives for a queue of pending events.
\<close>

datatype 'v part =
    Str string
  | QueueJson "(string list \<times> 'v event) list"

datatype edata = Json string | NotJson | Cyclic

datatype 'v thrown =
    ErrorObj "'v part list" "edata option"
  | StringVal string
  | OtherVal string "edata option"
  | FalsyVal
  | NullVal
  | UndefinedVal

datatype 'v outcome = Normal | Thrown "'v thrown"

text \<open>Arguments of the legacy var-args listener style, and the argument shapes of callbacks.\<close>

datatype 'v larg =
    LStr "string option"
  | LVal 'v
  | LNum int
  | LVals "'v list"
  | LPassed "'v passed"

datatype 'v cbargs =
    NoArgs
  | ErrArg "'v thrown"
  | CountArg nat
  | RawArgs "string list" "'v event"
  | EventArgs "'v event" "string option list"
  | LegacyArgs "'v larg list"

text \<open>
  The history of a run, kept as ghost state: each invocation of a mutation listener (tree
  key, pattern of the listener, path and event it is called with), each push on the
  pending queue, and each invocation of a completion callback.
\<close>

datatype 'v call =
    ListenerCall string "string list" "string list" "'v event"
  | Enqueued "string list" "'v event"
  | CallbackCall "'v cbargs"

text \<open>
  A scoped model: the fields of \<^verbatim>\<open>this\<close> that the embedded methods read. The state shared
  through \<^verbatim>\<open>this.root\<close> is the record \<open>root\<close> below.
\<close>

record 'v scope =
  silent :: bool
  pass :: "'v passed"
  eventContext :: "string option"

text \<open>
  Listener and callback bodies are user code. A body is a function from the history so far
  and its arguments to the commands it performs: mutations through a scope (each reaches
  \<^verbatim>\<open>_emitMutation\<close> with a path and an event) and \<^verbatim>\<open>throw\<close>.
\<close>

datatype 'v cmd =
    Emit "'v scope" "string list" "'v event"
  | Throw "'v thrown"

type_synonym 'v callback = "'v call list \<Rightarrow> 'v cbargs \<Rightarrow> 'v cmd list"

text \<open>\<^verbatim>\<open>MutationListener\<close> (events.js:370); the back-reference \<^verbatim>\<open>node\<close> is not modelled.\<close>

record 'v listener =
  patternSegments :: "string list"
  listenerContext :: "string option"
  fn :: "'v call list \<Rightarrow> string list \<Rightarrow> 'v event \<Rightarrow> 'v cmd list"

text \<open>The result of \<^verbatim>\<open>wrapCallback\<close>: the root's default callback or the wrapper of \<open>cb\<close>.\<close>

datatype 'v wrapped = DefaultCallback | WrappedCallback "'v callback"

text \<open>Closures handed to timers and to the external document handle, defunctionalised.\<close>

datatype 'v task =
    FinishUnfetchDoc "'v scope" string string "'v wrapped"
  | FinishUnsubscribeDoc "'v scope" string string "'v wrapped"
  | UnsubscribeDocCallback "'v scope" string string "'v wrapped"
  | RetryMaybeUnloadDoc "'v scope" string string

text \<open>
  The external document handle (\<^verbatim>\<open>doc.shareDoc\<close>), seen through the members the code uses:
  \<^verbatim>\<open>hasPending()\<close>, \<^verbatim>\<open>destroy()\<close>, and the callbacks given to \<^verbatim>\<open>whenNothingPending\<close> and
  \<^verbatim>\<open>unsubscribe\<close>.
\<close>

record 'v sharedoc =
  hasPending :: bool
  destroyed :: bool
  handed :: "'v task list"

record 'v doc =
  docData :: 'v
  shareDoc :: "nat option"

record query =
  subscribeCount :: int
  fetchCount :: int
  idMap :: "string \<rightharpoonup> int"

text \<open>
  The root model. \<open>'t\<close> is the type of listener trees (\<^verbatim>\<open>EventListenerTree\<close>) and \<open>'c\<close> the
  state of the loading contexts (\<^verbatim>\<open>this._context\<close>); both classes lie outside the embedded
  files. The queue of events.js is a flat array \<^verbatim>\<open>[segments, event, segments, event, ...]\<close>,
  always pushed and read two items at a time; here it is a list of pairs, and \<open>None\<close> is
  \<^verbatim>\<open>null\<close>.
\<close>

record ('v, 't, 'c) root =
  mutationListeners :: "string \<rightharpoonup> 't"
  emittingMutation :: bool
  mutationEventQueue :: "(string list \<times> 'v event) list option"
  eventContextListeners :: "string \<rightharpoonup> 'v listener list"
  trace :: "'v call list"
  fetchOnly :: bool
  unloadDelay :: int
  fetchedDocs :: "string \<Rightarrow> string \<Rightarrow> nat"
  subscribedDocs :: "string \<Rightarrow> string \<Rightarrow> nat"
  collections :: "string \<rightharpoonup> (string \<rightharpoonup> 'v doc)"
  queries :: "string \<rightharpoonup> (string \<times> query) list"
  share :: "nat \<Rightarrow> 'v sharedoc"
  timers :: "(int \<times> 'v task) list"
  contexts :: 'c

type_synonym ('v, 't, 'c) result = "'v outcome \<times> ('v, 't, 'c) root"

type_synonym ('v, 't, 'c) emitter =
  "'v scope \<Rightarrow> string list \<Rightarrow> 'v event \<Rightarrow> ('v, 't, 'c) root \<Rightarrow> ('v, 't, 'c) result"

text \<open>
  An argument of \<^verbatim>\<open>on(type, arg1, arg2, arg3)\<close>: absent, a function, a string, or an
  options object, of which only the truthiness of \<^verbatim>\<open>useEventObjects\<close> is read.
\<close>

datatype 'v arg =
    Undefined
  | FunArg "'v callback"
  | StrArg string
  | OptsArg bool

text \<open>
  The collaborators that are not part of the embedded files, taken as parameters:
  the two methods of \<^verbatim>\<open>EventListenerTree\<close>, \<^verbatim>\<open>Model.prototype.path\<close> (\<open>None\<close> is
  \<^verbatim>\<open>undefined\<close>), the platform's \<^verbatim>\<open>EventEmitter.prototype.emit\<close>, and the bookkeeping of
  the loading context.
\<close>

record ('v, 't, 'c) env =
  getWildcardListeners :: "'t \<Rightarrow> string list \<Rightarrow> 'v listener list"
  addListener :: "'t \<Rightarrow> string list \<Rightarrow> 'v listener \<Rightarrow> 't"
  path :: "'v scope \<Rightarrow> 'v arg \<Rightarrow> string option"
  emitEvent :: "string \<Rightarrow> 'v thrown \<Rightarrow> ('v, 't, 'c) root \<Rightarrow> ('v, 't, 'c) result"
  contextUnfetchDoc :: "'v scope \<Rightarrow> string \<Rightarrow> string \<Rightarrow> 'c \<Rightarrow> 'c"
  contextUnsubscribeDoc :: "'v scope \<Rightarrow> string \<Rightarrow> string \<Rightarrow> 'c \<Rightarrow> 'c"

section \<open>The mutation emitter (events.js)\<close>

text \<open>
  The error of events.js:106, and the two errors of the engine that the model makes
  explicit: the \<^verbatim>\<open>TypeError\<close> of a method call on \<^verbatim>\<open>undefined\<close>, that of reading a property
  of \<^verbatim>\<open>null\<close> or \<^verbatim>\<open>undefined\<close>, and an exhausted call stack. The message texts are the
  engine's.
\<close>

definition cycleError :: "(string list \<times> 'v event) list \<Rightarrow> 'v thrown" where
  "cycleError queue =
     ErrorObj
       [Str (''Maximum model mutation event cycles exceeded. Most likely, an event '' @
             ''listener is performing a mutation that emits an event to the same '' @
             ''listener, directly or indirectly. This creates an infinite cycle. Queue details: '' @
             [CHR 0x0A]),
        QueueJson queue] None"

definition typeError :: "'v thrown" where
  "typeError = ErrorObj [Str ''Cannot read properties of undefined''] None"

definition readError :: "string \<Rightarrow> 'v thrown" where
  "readError v = ErrorObj [Str (''Cannot read properties of '' @ v)] None"

definition stackOverflow :: "'v thrown" where
  "stackOverflow = ErrorObj [Str ''Maximum call stack size exceeded''] None"

text \<open>Sequencing of two steps: an exception of the first skips the second.\<close>

definition andThen :: "'e outcome \<times> 's \<Rightarrow> ('s \<Rightarrow> 'e outcome \<times> 's) \<Rightarrow> 'e outcome \<times> 's" where
  "andThen r f = (case r of (Normal, s) \<Rightarrow> f s | (Thrown e, s) \<Rightarrow> (Thrown e, s))"

text \<open>Running the body of a listener or callback; \<open>emit\<close> is \<^verbatim>\<open>_emitMutation\<close>.\<close>

fun runCmds :: "('v scope \<Rightarrow> string list \<Rightarrow> 'v event \<Rightarrow> 's \<Rightarrow> 'v outcome \<times> 's) \<Rightarrow>
    'v cmd list \<Rightarrow> 's \<Rightarrow> 'v outcome \<times> 's" where
  "runCmds emit [] st = (Normal, st)"
| "runCmds emit (Emit sc segments event # cs) st =
     andThen (emit sc segments event st) (runCmds emit cs)"
| "runCmds emit (Throw e # cs) st = (Thrown e, st)"

text \<open>
  The loop of \<^verbatim>\<open>_callMutationListeners\<close> (events.js:128) over the listeners found: each
  \<^verbatim>\<open>fn(segments, event)\<close> runs to its end before the next listener is called, and an
  exception leaves the loop.
\<close>

fun callListeners :: "('v, 't, 'c) emitter \<Rightarrow> string \<Rightarrow> string list \<Rightarrow> 'v event \<Rightarrow>
    'v listener list \<Rightarrow> ('v, 't, 'c) root \<Rightarrow> ('v, 't, 'c) result" where
  "callListeners emit ty segments event [] st = (Normal, st)"
| "callListeners emit ty segments event (l # ls) st =
     andThen
       (runCmds emit (fn l (trace st) segments event)
          (st\<lparr>trace := trace st @ [ListenerCall ty (patternSegments l) segments event]\<rparr>))
       (callListeners emit ty segments event ls)"

text \<open>\<^verbatim>\<open>Model.prototype._callMutationListeners\<close> (events.js:125).\<close>

definition callMutationListeners :: "('v, 't, 'c) env \<Rightarrow> ('v, 't, 'c) emitter \<Rightarrow> string \<Rightarrow>
    string list \<Rightarrow> 'v event \<Rightarrow> ('v, 't, 'c) root \<Rightarrow> ('v, 't, 'c) result" where
  "callMutationListeners E emit ty segments event st =
     (case mutationListeners st ty of
        None \<Rightarrow> (Thrown typeError, st)
      | Some tree \<Rightarrow>
          callListeners emit ty segments event (getWildcardListeners E tree segments) st)"

text \<open>The \<^verbatim>\<open>for\<close> loop over one batch of the queue (events.js:115).\<close>

fun forQueue :: "('v, 't, 'c) env \<Rightarrow> ('v, 't, 'c) emitter \<Rightarrow> (string list \<times> 'v event) list \<Rightarrow>
    ('v, 't, 'c) root \<Rightarrow> ('v, 't, 'c) result" where
  "forQueue E emit [] st = (Normal, st)"
| "forQueue E emit ((segments, event) # queue) st =
     andThen (callMutationListeners E emit (etype event) segments event st) (\<lambda>st.
     andThen (callMutationListeners E emit ''all'' segments event st) (\<lambda>st.
     forQueue E emit queue st))"

text \<open>
  The \<^verbatim>\<open>while\<close> loop of events.js:104, with the counter \<^verbatim>\<open>limit\<close> as the source has it:
  decremented, then compared with 0, before the queue is taken and cleared.
\<close>

function drainQueue :: "('v, 't, 'c) env \<Rightarrow> ('v, 't, 'c) emitter \<Rightarrow> int \<Rightarrow>
    ('v, 't, 'c) root \<Rightarrow> ('v, 't, 'c) result" where
  "drainQueue E emit limit st =
     (case mutationEventQueue st of
        None \<Rightarrow> (Normal, st)
      | Some queue \<Rightarrow>
          if limit - 1 < 0 then (Thrown (cycleError queue), st)
          else andThen (forQueue E emit queue (st\<lparr>mutationEventQueue := None\<rparr>))
                 (drainQueue E emit (limit - 1)))"
  by pat_completeness auto
termination
  by (relation "measure (\<lambda>(E, emit, limit, st). nat limit)") auto

text \<open>The push of events.js:93-97.\<close>

definition enqueue :: "string list \<Rightarrow> 'v event \<Rightarrow> ('v, 't, 'c) root \<Rightarrow> ('v, 't, 'c) root" where
  "enqueue segments event st =
     st\<lparr>mutationEventQueue :=
          (case mutationEventQueue st of
             Some queue \<Rightarrow> Some (queue @ [(segments, event)])
           | None \<Rightarrow> Some [(segments, event)]),
        trace := trace st @ [Enqueued segments event]\<rparr>"

text \<open>
  \<^verbatim>\<open>Model.prototype._emitMutation\<close> (events.js:88). The method is re-entered from listener
  bodies; \<open>emit\<close> stands for the method in those nested calls.
\<close>

definition emitMutationBody :: "('v, 't, 'c) env \<Rightarrow> ('v, 't, 'c) emitter \<Rightarrow> ('v, 't, 'c) emitter" where
  "emitMutationBody E emit this segments event st =
     (if silent this then (Normal, st)
      else
        andThen (callMutationListeners E emit (immediateType event) segments event st) (\<lambda>st.
        if emittingMutation st then (Normal, enqueue segments event st)
        else
          andThen (callMutationListeners E emit (etype event) segments event
                     (st\<lparr>emittingMutation := True\<rparr>)) (\<lambda>st.
          andThen (callMutationListeners E emit ''all'' segments event st) (\<lambda>st.
          andThen (drainQueue E emit 1000 st) (\<lambda>st.
          (Normal, st\<lparr>emittingMutation := False\<rparr>))))))"

text \<open>
  The recursion through listener bodies is bounded by the depth \<open>n\<close> of the call stack: a
  call that would exceed it throws, as the engine does.
\<close>

primrec emitMutation :: "('v, 't, 'c) env \<Rightarrow> nat \<Rightarrow> ('v, 't, 'c) emitter" where
  "emitMutation E 0 = (\<lambda>this segments event st. (Thrown stackOverflow, st))"
| "emitMutation E (Suc n) = emitMutationBody E (emitMutation E n)"

text \<open>
  \<^verbatim>\<open>Model.prototype._emitError\<close> (events.js:68), in two steps. The first is the error object
  that is emitted (events.js:69-84), \<open>Inr\<close>; reading \<^verbatim>\<open>err.message\<close> of \<^verbatim>\<open>null\<close> or
  \<^verbatim>\<open>undefined\<close> at events.js:69 throws instead, \<open>Inl\<close>. The second is the emission by
  \<^verbatim>\<open>this.emit('error', err)\<close>, which is the platform's emitter.
\<close>

fun partEmpty :: "'v part \<Rightarrow> bool" where
  "partEmpty (Str s) = (s = [])"
| "partEmpty (QueueJson q) = False"

fun errData :: "'v thrown \<Rightarrow> edata option" where
  "errData (ErrorObj m d) = d"
| "errData (StringVal s) = None"
| "errData (OtherVal m d) = d"
| "errData FalsyVal = None"
| "errData NullVal = None"
| "errData UndefinedVal = None"

definition errorForEvent :: "'v thrown \<Rightarrow> string option \<Rightarrow> 'v thrown + 'v thrown" where
  "errorForEvent err context =
     (case err of
        NullVal \<Rightarrow> Inl (readError ''null'')
      | UndefinedVal \<Rightarrow> Inl (readError ''undefined'')
      | _ \<Rightarrow>
          (let message =
                 (case err of
                    ErrorObj m d \<Rightarrow>
                      if \<not> list_all partEmpty m then m else [Str ''Unknown model error'']
                  | StringVal s \<Rightarrow> [Str s]
                  | OtherVal m d \<Rightarrow> if m \<noteq> [] then [Str m] else [Str ''Unknown model error'']
                  | _ \<Rightarrow> [Str ''Unknown model error'']);
               message =
                 (case context of
                    Some c \<Rightarrow> if c \<noteq> [] then message @ [Str ('' '' @ c)] else message
                  | None \<Rightarrow> message);
               message =
                 (case errData err of
                    Some (Json json) \<Rightarrow> message @ [Str ('' '' @ json)]
                  | Some NotJson \<Rightarrow> message @ [Str '' undefined'']
                  | Some Cyclic \<Rightarrow> message
                  | None \<Rightarrow> message)
           in Inr (case err of ErrorObj m d \<Rightarrow> ErrorObj message d | _ \<Rightarrow> ErrorObj message None)))"

definition emitError :: "('v, 't, 'c) env \<Rightarrow> 'v thrown \<Rightarrow> string option \<Rightarrow>
    ('v, 't, 'c) root \<Rightarrow> ('v, 't, 'c) result" where
  "emitError E err context st =
     (case errorForEvent err context of
        Inl e \<Rightarrow> (Thrown e, st)
      | Inr e \<Rightarrow> emitEvent E ''error'' e st)"

text \<open>
  \<^verbatim>\<open>Model.prototype.wrapCallback\<close> (events.js:56), and a call of its result with the
  arguments \<open>args\<close>: \<^verbatim>\<open>defaultCallback\<close> (events.js:33), which tests its argument before it
  calls \<^verbatim>\<open>_emitError\<close>, or \<^verbatim>\<open>wrappedCallback\<close> with its \<^verbatim>\<open>try\<close>/\<^verbatim>\<open>catch\<close>, which does not.
\<close>

fun truthyVal :: "'v thrown \<Rightarrow> bool" where
  "truthyVal (ErrorObj m d) = True"
| "truthyVal (StringVal s) = (s \<noteq> [])"
| "truthyVal (OtherVal m d) = True"
| "truthyVal FalsyVal = False"
| "truthyVal NullVal = False"
| "truthyVal UndefinedVal = False"

definition wrapCallback :: "'v callback option \<Rightarrow> 'v wrapped" where
  "wrapCallback cb = (case cb of None \<Rightarrow> DefaultCallback | Some f \<Rightarrow> WrappedCallback f)"

fun callWrapped :: "('v, 't, 'c) env \<Rightarrow> ('v, 't, 'c) emitter \<Rightarrow> 'v wrapped \<Rightarrow> 'v cbargs \<Rightarrow>
    ('v, 't, 'c) root \<Rightarrow> ('v, 't, 'c) result" where
  "callWrapped E emit DefaultCallback args st =
     (case args of
        ErrArg err \<Rightarrow> if truthyVal err then emitError E err None st else (Normal, st)
      | _ \<Rightarrow> (Normal, st))"
| "callWrapped E emit (WrappedCallback cb) args st =
     (case runCmds emit (cb (trace st) args) (st\<lparr>trace := trace st @ [CallbackCall args]\<rparr>) of
        (Normal, st') \<Rightarrow> (Normal, st')
      | (Thrown err, st') \<Rightarrow> emitError E err None st')"

subsection \<open>Scope derivation\<close>

text \<open>
  Scoped models are objects: a store of them is a list, a reference an index into it.

  Modelled from the spec: \<^verbatim>\<open>Model.prototype._child\<close>, which is not in the embedded files. The
  spec has derived scopes as new views that hold their own override fields; the new object
  starts with the fields of its parent.
\<close>

definition child :: "nat \<Rightarrow> 'v scope list \<Rightarrow> nat \<times> 'v scope list" where
  "child this ms = (length ms, ms @ [ms ! this])"

text \<open>\<^verbatim>\<open>Object.assign(target, source)\<close>: each own key of the source is written to the target.\<close>

definition objectAssign :: "'v passed \<Rightarrow> 'v passed \<Rightarrow> 'v passed" where
  "objectAssign target source = fold (\<lambda>(k, v). AList.update k v) source target"

text \<open>
  \<^verbatim>\<open>Model.prototype.pass\<close> (events.js:206), in the variant chosen where \<^verbatim>\<open>Object.assign\<close>
  exists. \<^verbatim>\<open>new Passed()\<close> is the empty object.
\<close>

definition Model_pass :: "nat \<Rightarrow> 'v passed \<Rightarrow> bool \<Rightarrow> 'v scope list \<Rightarrow> nat \<times> 'v scope list" where
  "Model_pass this object invert ms =
     (let (model, ms1) = child this ms;
          p = (if invert
               then objectAssign (objectAssign [] object) (pass (ms1 ! this))
               else objectAssign (objectAssign [] (pass (ms1 ! this))) object)
      in (model, ms1[model := (ms1 ! model)\<lparr>pass := p\<rparr>]))"

subsection \<open>Listener registration\<close>

text \<open>\<^verbatim>\<open>String.prototype.split('.')\<close>, \<^verbatim>\<open>Array.prototype.join('.')\<close> and \<^verbatim>\<open>charAt\<close>.\<close>

fun splitDot :: "string \<Rightarrow> string list" where
  "splitDot [] = [[]]"
| "splitDot (c # cs) =
     (if c = CHR ''.'' then [] # splitDot cs
      else (case splitDot cs of [] \<Rightarrow> [[c]] | w # ws \<Rightarrow> (c # w) # ws))"

fun joinDot :: "string list \<Rightarrow> string" where
  "joinDot [] = []"
| "joinDot [s] = s"
| "joinDot (s # t # ss) = s @ ''.'' @ joinDot (t # ss)"

definition charAt :: "string \<Rightarrow> int \<Rightarrow> string" where
  "charAt s i = (if 0 \<le> i \<and> i < int (length s) then [s ! nat i] else [])"

text \<open>
  \<^verbatim>\<open>normalizePattern\<close> (events.js:533). \<^verbatim>\<open>slice(0, end - 1)\<close> is reached only when the
  character at \<^verbatim>\<open>end - 2\<close> exists, so its bound is positive.
\<close>

definition normalizePattern :: "string \<Rightarrow> string" where
  "normalizePattern pattern =
     (let e = int (length pattern) - 1 in
      if charAt pattern e = ''*'' \<and> charAt pattern (e - 1) = ''*'' \<and>
         charAt pattern (e - 2) \<noteq> ''.'' \<and> charAt pattern (e - 2) \<noteq> []
      then take (nat (e - 1)) pattern @ ''.**''
      else pattern)"

text \<open>\<^verbatim>\<open>createCaptures\<close> (events.js:355); an index beyond the path yields \<^verbatim>\<open>undefined\<close>.\<close>

definition createCaptures :: "nat list option \<Rightarrow> nat option \<Rightarrow> string list \<Rightarrow> string option list" where
  "createCaptures captureIndicies remainingIndex segments =
     (case captureIndicies of
        None \<Rightarrow> []
      | Some is \<Rightarrow> map (\<lambda>index. if index < length segments then Some (segments ! index) else None) is)
     @ (case remainingIndex of
          None \<Rightarrow> []
        | Some r \<Rightarrow> [Some (joinDot (drop r segments))])"

text \<open>The error of events.js:397; \<open>CHR 0x60\<close> is the backquote.\<close>

definition patternError :: "'v thrown" where
  "patternError =
     ErrorObj [Str (''Path pattern may contain '' @ [CHR 0x60] @ ''**'' @ [CHR 0x60] @
                    '' at end only'')] None"

text \<open>
  The loop of \<^verbatim>\<open>createMutationListener\<close> (events.js:387) from index \<open>i\<close> on, over the
  segments not yet seen; \<open>len\<close> is \<^verbatim>\<open>patternSegments.length\<close>.
\<close>

fun scanSegments :: "nat \<Rightarrow> nat \<Rightarrow> string list \<Rightarrow> nat list option \<Rightarrow> nat option \<Rightarrow>
    'v thrown + (nat list option \<times> nat option)" where
  "scanSegments len i [] captureIndicies remainingIndex = Inr (captureIndicies, remainingIndex)"
| "scanSegments len i (segment # rest) captureIndicies remainingIndex =
     (if segment = ''*'' then
        scanSegments len (i + 1) rest
          (case captureIndicies of Some is \<Rightarrow> Some (is @ [i]) | None \<Rightarrow> Some [i]) remainingIndex
      else if segment = ''**'' then
        (if int i \<noteq> int len - 1
         then Inl patternError
         else scanSegments len (i + 1) rest captureIndicies (Some i))
      else scanSegments len (i + 1) rest captureIndicies remainingIndex)"

text \<open>
  \<^verbatim>\<open>createMutationListener\<close> (events.js:377); \<open>cb\<close> is called with the event and the
  captures.
\<close>

definition createMutationListener :: "string \<Rightarrow> string option \<Rightarrow>
    ('v call list \<Rightarrow> 'v event \<Rightarrow> string option list \<Rightarrow> 'v cmd list) \<Rightarrow> 'v thrown + 'v listener" where
  "createMutationListener pattern ctx cb =
     (let segs = splitDot pattern in
      if length segs = 1 \<and> segs ! 0 = ''**'' then
        Inr \<lparr>patternSegments = segs, listenerContext = ctx,
             fn = (\<lambda>tr segments event. cb tr event [Some (joinDot segments)])\<rparr>
      else
        (case scanSegments (length segs) 0 segs None None of
           Inl err \<Rightarrow> Inl err
         | Inr (captureIndicies, remainingIndex) \<Rightarrow>
             if captureIndicies \<noteq> None \<or> remainingIndex \<noteq> None then
               Inr \<lparr>patternSegments = segs, listenerContext = ctx,
                    fn = (\<lambda>tr segments event.
                            cb tr event (createCaptures captureIndicies remainingIndex segments))\<rparr>
             else
               Inr \<lparr>patternSegments = segs, listenerContext = ctx,
                    fn = (\<lambda>tr segments event. cb tr event [])\<rparr>))"

text \<open>\<^verbatim>\<open>_getArgs\<close> of each event, and \<^verbatim>\<open>createMutationListenerLegacy\<close> (events.js:416).\<close>

fun getArgs :: "'v event \<Rightarrow> 'v larg list" where
  "getArgs (ChangeEvent v p c) = [LVal v, LVal p, LPassed c]"
| "getArgs (LoadEvent v c) = [LVal v, LPassed c]"
| "getArgs (UnloadEvent p c) = [LVal p, LPassed c]"
| "getArgs (InsertEvent i vs c) = [LNum i, LVals vs, LPassed c]"
| "getArgs (RemoveEvent i vs c) = [LNum i, LVals vs, LPassed c]"
| "getArgs (MoveEvent f t h c) = [LNum f, LNum t, LNum h, LPassed c]"

definition createMutationListenerLegacy :: "string \<Rightarrow> string \<Rightarrow> string option \<Rightarrow> 'v callback \<Rightarrow>
    'v thrown + 'v listener" where
  "createMutationListenerLegacy ty pattern ctx cb =
     createMutationListener pattern ctx
       (if ty = ''all''
        then (\<lambda>tr event captures.
                cb tr (LegacyArgs (map LStr captures @ [LStr (Some (etype event))] @ getArgs event)))
        else (\<lambda>tr event captures. cb tr (LegacyArgs (map LStr captures @ getArgs event))))"

text \<open>
  \<^verbatim>\<open>getMutationListener\<close> (events.js:313), in two steps: the choice of pattern, options
  and callback by the shape of the arguments (events.js:315-344), then the construction of
  the listener (events.js:345-352).
\<close>

definition listenerArgs :: "('v, 't, 'c) env \<Rightarrow> 'v scope \<Rightarrow> 'v arg \<Rightarrow> 'v arg \<Rightarrow> 'v arg \<Rightarrow>
    'v thrown + (string option \<times> 'v arg \<times> 'v callback)" where
  "listenerArgs E model arg1 arg2 arg3 =
     (case arg3 of
        FunArg cb \<Rightarrow> Inr (path E model arg1, arg2, cb)
      | _ \<Rightarrow>
        (case arg2 of
           FunArg cb \<Rightarrow>
             (case path E model arg1 of
                None \<Rightarrow> Inr (path E model Undefined, arg1, cb)
              | Some p \<Rightarrow> Inr (Some p, Undefined, cb))
         | _ \<Rightarrow>
           (case arg1 of
              FunArg cb \<Rightarrow> Inr (path E model Undefined, Undefined, cb)
            | _ \<Rightarrow> Inl (ErrorObj [Str ''No expected callback function''] None))))"

definition getMutationListener :: "('v, 't, 'c) env \<Rightarrow> 'v scope \<Rightarrow> string \<Rightarrow> 'v arg \<Rightarrow> 'v arg \<Rightarrow>
    'v arg \<Rightarrow> 'v thrown + 'v listener" where
  "getMutationListener E model ty arg1 arg2 arg3 =
     (case listenerArgs E model arg1 arg2 arg3 of
        Inl err \<Rightarrow> Inl err
      | Inr (pattern, options, cb) \<Rightarrow>
          if pattern = None \<or> pattern = Some [] then
            Inr \<lparr>patternSegments = [''**''], listenerContext = eventContext model,
                 fn = (\<lambda>tr segments event. cb tr (RawArgs segments event))\<rparr>
          else
            (let pattern = normalizePattern (the pattern) in
             if (case options of OptsArg useEventObjects \<Rightarrow> useEventObjects | _ \<Rightarrow> False)
             then createMutationListener pattern (eventContext model)
                    (\<lambda>tr event captures. cb tr (EventArgs event captures))
             else createMutationListenerLegacy ty pattern (eventContext model) cb))"

text \<open>
  \<^verbatim>\<open>Model.prototype._addMutationListener\<close> (events.js:276). The result is the exception
  thrown, or the listener, or \<^verbatim>\<open>undefined\<close> when \<open>ty\<close> names no listener tree.
\<close>

definition addMutationListener :: "('v, 't, 'c) env \<Rightarrow> 'v scope \<Rightarrow> string \<Rightarrow> 'v arg \<Rightarrow> 'v arg \<Rightarrow>
    'v arg \<Rightarrow> ('v, 't, 'c) root \<Rightarrow> ('v thrown + 'v listener option) \<times> ('v, 't, 'c) root" where
  "addMutationListener E this ty arg1 arg2 arg3 st =
     (case mutationListeners st ty of
        None \<Rightarrow> (Inr None, st)
      | Some tree \<Rightarrow>
          (case getMutationListener E this ty arg1 arg2 arg3 of
             Inl err \<Rightarrow> (Inl err, st)
           | Inr listener \<Rightarrow>
               (let st1 = st\<lparr>mutationListeners :=
                              (mutationListeners st)
                                (ty \<mapsto> addListener E tree (patternSegments listener) listener)\<rparr>
                in case eventContext this of
                     None \<Rightarrow> (Inr (Some listener), st1)
                   | Some ident \<Rightarrow>
                       (Inr (Some listener),
                        st1\<lparr>eventContextListeners :=
                              (eventContextListeners st1)
                                (ident \<mapsto> (case eventContextListeners st1 ident of
                                           Some listeners \<Rightarrow> listeners @ [listener]
                                         | None \<Rightarrow> [listener]))\<rparr>))))"

section \<open>Document references (subscriptions.ts)\<close>

text \<open>
  The options read by the initialiser of subscriptions.ts:106; \<open>None\<close> is an option that
  was not given. A number is truthy when it is not zero.
\<close>

record options =
  optFetchOnly :: bool
  optUnloadDelay :: "int option"

definition truthy :: "int option \<Rightarrow> bool" where
  "truthy x = (case x of None \<Rightarrow> False | Some n \<Rightarrow> n \<noteq> 0)"

text \<open>
  The initialiser (subscriptions.ts:106); \<open>isServer\<close> is \<^verbatim>\<open>util.isServer\<close>. In
  \<^verbatim>\<open>options.unloadDelay || (util.isServer) ? 0 : 1000\<close> the operator \<^verbatim>\<open>||\<close> binds tighter
  than the conditional, so the condition is \<^verbatim>\<open>options.unloadDelay || util.isServer\<close>.
\<close>

definition initSubscriptions :: "options \<Rightarrow> bool \<Rightarrow> ('v, 't, 'c) root \<Rightarrow> ('v, 't, 'c) root" where
  "initSubscriptions opts isServer st =
     st\<lparr>fetchOnly := optFetchOnly opts,
        unloadDelay := (if truthy (optUnloadDelay opts) \<or> isServer then 0 else 1000),
        fetchedDocs := (\<lambda>collectionName id. 0),
        subscribedDocs := (\<lambda>collectionName id. 0)\<rparr>"

text \<open>
  Modelled from the spec: \<^verbatim>\<open>CollectionCounter\<close>, which is not in the embedded files. The spec
  has \<^verbatim>\<open>get\<close> return the count, 0 if absent, and \<^verbatim>\<open>decrement\<close> return the new count, with a
  floor at 0.
\<close>

definition counterGet :: "(string \<Rightarrow> string \<Rightarrow> nat) \<Rightarrow> string \<Rightarrow> string \<Rightarrow> nat" where
  "counterGet counter collectionName ident = counter collectionName ident"

definition counterDecrement :: "(string \<Rightarrow> string \<Rightarrow> nat) \<Rightarrow> string \<Rightarrow> string \<Rightarrow>
    (string \<Rightarrow> string \<Rightarrow> nat) \<times> nat" where
  "counterDecrement counter collectionName ident =
     (counter(collectionName := (counter collectionName)(ident := counter collectionName ident - 1)),
      counter collectionName ident - 1)"

text \<open>
  Modelled from the spec: \<^verbatim>\<open>Model.prototype.getDoc\<close> and \<^verbatim>\<open>Collection.prototype.remove\<close>,
  which are not in the embedded files: the lookup of a local document and its removal from
  its collection.
\<close>

definition getDoc :: "('v, 't, 'c) root \<Rightarrow> string \<Rightarrow> string \<Rightarrow> 'v doc option" where
  "getDoc st collectionName ident =
     (case collections st collectionName of None \<Rightarrow> None | Some docs \<Rightarrow> docs ident)"

definition collectionRemove :: "string \<Rightarrow> string \<Rightarrow> ('v, 't, 'c) root \<Rightarrow> ('v, 't, 'c) root" where
  "collectionRemove collectionName ident st =
     (case collections st collectionName of
        None \<Rightarrow> st
      | Some docs \<Rightarrow> st\<lparr>collections := (collections st)(collectionName \<mapsto> docs(ident := None))\<rparr>)"

text \<open>
  The two calls on the external document handle that change it: \<^verbatim>\<open>destroy()\<close>, and the
  registration of a callback by \<^verbatim>\<open>whenNothingPending\<close> or \<^verbatim>\<open>unsubscribe\<close>.
\<close>

definition shareDestroy :: "nat \<Rightarrow> ('v, 't, 'c) root \<Rightarrow> ('v, 't, 'c) root" where
  "shareDestroy h st = st\<lparr>share := (share st)(h := (share st h)\<lparr>destroyed := True\<rparr>)\<rparr>"

definition shareHand :: "nat \<Rightarrow> 'v task \<Rightarrow> ('v, 't, 'c) root \<Rightarrow> ('v, 't, 'c) root" where
  "shareHand h task st =
     st\<lparr>share := (share st)(h := (share st h)\<lparr>handed := handed (share st h) @ [task]\<rparr>)\<rparr>"

text \<open>
  The loop of \<^verbatim>\<open>_hasDocReferences\<close> (subscriptions.ts:319) over the queries of a collection;
  \<^verbatim>\<open>query.idMap[id] > 0\<close> is false for an absent entry.
\<close>

fun queryHolds :: "string \<Rightarrow> (string \<times> query) list \<Rightarrow> bool" where
  "queryHolds ident [] = False"
| "queryHolds ident ((hash, query) # rest) =
     (if subscribeCount query = 0 \<and> fetchCount query = 0 then queryHolds ident rest
      else if (case idMap query ident of Some n \<Rightarrow> n > 0 | None \<Rightarrow> False) then True
      else queryHolds ident rest)"

text \<open>\<^verbatim>\<open>Model.prototype._hasDocReferences\<close> (subscriptions.ts:314).\<close>

definition hasDocReferences :: "('v, 't, 'c) root \<Rightarrow> string \<Rightarrow> string \<Rightarrow> bool" where
  "hasDocReferences st collectionName ident =
     (if (case queries st collectionName of Some qs \<Rightarrow> queryHolds ident qs | None \<Rightarrow> False) then True
      else if counterGet (fetchedDocs st) collectionName ident \<noteq> 0 \<or>
              counterGet (subscribedDocs st) collectionName ident \<noteq> 0 then True
      else False)"

text \<open>
  \<^verbatim>\<open>Model.prototype._maybeUnloadDoc\<close> (subscriptions.ts:281); \<open>n\<close> is the depth left on the
  call stack for the emission of the event.
\<close>

definition maybeUnloadDoc :: "('v, 't, 'c) env \<Rightarrow> nat \<Rightarrow> 'v scope \<Rightarrow> string \<Rightarrow> string \<Rightarrow>
    ('v, 't, 'c) root \<Rightarrow> ('v, 't, 'c) result" where
  "maybeUnloadDoc E n this collectionName ident st =
     (case getDoc st collectionName ident of
        None \<Rightarrow> (Normal, st)
      | Some doc \<Rightarrow>
          if hasDocReferences st collectionName ident then (Normal, st)
          else if (case shareDoc doc of Some h \<Rightarrow> hasPending (share st h) | None \<Rightarrow> False) then
            (Normal, shareHand (the (shareDoc doc)) (RetryMaybeUnloadDoc this collectionName ident) st)
          else
            (let previous = docData doc;
                 st = (if collections st collectionName \<noteq> None
                       then collectionRemove collectionName ident st else st);
                 st = (case shareDoc doc of Some h \<Rightarrow> shareDestroy h st | None \<Rightarrow> st);
                 event = UnloadEvent previous (pass this)
             in emitMutation E n this [collectionName, ident] event st))"

text \<open>\<^verbatim>\<open>finishUnfetchDoc\<close> and \<^verbatim>\<open>Model.prototype.unfetchDoc\<close> (subscriptions.ts:220).\<close>

definition finishUnfetchDoc :: "('v, 't, 'c) env \<Rightarrow> nat \<Rightarrow> 'v scope \<Rightarrow> string \<Rightarrow> string \<Rightarrow>
    'v wrapped \<Rightarrow> ('v, 't, 'c) root \<Rightarrow> ('v, 't, 'c) result" where
  "finishUnfetchDoc E n model collectionName ident cb st =
     (let (counter, count) = counterDecrement (fetchedDocs st) collectionName ident;
          st = st\<lparr>fetchedDocs := counter\<rparr>
      in if count \<noteq> 0 then callWrapped E (emitMutation E n) cb (CountArg count) st
         else andThen (maybeUnloadDoc E n model collectionName ident st)
                (callWrapped E (emitMutation E n) cb (CountArg 0)))"

definition unfetchDoc :: "('v, 't, 'c) env \<Rightarrow> nat \<Rightarrow> 'v scope \<Rightarrow> string \<Rightarrow> string \<Rightarrow>
    'v callback option \<Rightarrow> ('v, 't, 'c) root \<Rightarrow> ('v, 't, 'c) result" where
  "unfetchDoc E n this collectionName ident cb st =
     (let cb = wrapCallback cb;
          st = st\<lparr>contexts := contextUnfetchDoc E this collectionName ident (contexts st)\<rparr>
      in if counterGet (fetchedDocs st) collectionName ident = 0
         then callWrapped E (emitMutation E n) cb NoArgs st
         else if unloadDelay st \<noteq> 0
         then (Normal, st\<lparr>timers := timers st @
                 [(unloadDelay st, FinishUnfetchDoc this collectionName ident cb)]\<rparr>)
         else finishUnfetchDoc E n this collectionName ident cb st)"

text \<open>
  \<^verbatim>\<open>unsubscribeDocCallback\<close>, \<^verbatim>\<open>finishUnsubscribeDoc\<close> and
  \<^verbatim>\<open>Model.prototype.unsubscribeDoc\<close> (subscriptions.ts:242).
\<close>

definition unsubscribeDocCallback :: "('v, 't, 'c) env \<Rightarrow> nat \<Rightarrow> 'v scope \<Rightarrow> string \<Rightarrow> string \<Rightarrow>
    'v wrapped \<Rightarrow> 'v thrown option \<Rightarrow> ('v, 't, 'c) root \<Rightarrow> ('v, 't, 'c) result" where
  "unsubscribeDocCallback E n model collectionName ident cb err st =
     andThen (maybeUnloadDoc E n model collectionName ident st) (\<lambda>st.
       case err of
         Some e \<Rightarrow> callWrapped E (emitMutation E n) cb (ErrArg e) st
       | None \<Rightarrow> callWrapped E (emitMutation E n) cb (CountArg 0) st)"

definition finishUnsubscribeDoc :: "('v, 't, 'c) env \<Rightarrow> nat \<Rightarrow> 'v scope \<Rightarrow> string \<Rightarrow> string \<Rightarrow>
    'v wrapped \<Rightarrow> ('v, 't, 'c) root \<Rightarrow> ('v, 't, 'c) result" where
  "finishUnsubscribeDoc E n model collectionName ident cb st =
     (let (counter, count) = counterDecrement (subscribedDocs st) collectionName ident;
          st = st\<lparr>subscribedDocs := counter\<rparr>
      in if count \<noteq> 0 then callWrapped E (emitMutation E n) cb (CountArg count) st
         else if fetchOnly st then unsubscribeDocCallback E n model collectionName ident cb None st
         else
           (case getDoc st collectionName ident of
              None \<Rightarrow> unsubscribeDocCallback E n model collectionName ident cb None st
            | Some doc \<Rightarrow>
                (case shareDoc doc of
                   None \<Rightarrow> unsubscribeDocCallback E n model collectionName ident cb None st
                 | Some h \<Rightarrow>
                     (Normal, shareHand h (UnsubscribeDocCallback model collectionName ident cb) st))))"

definition unsubscribeDoc :: "('v, 't, 'c) env \<Rightarrow> nat \<Rightarrow> 'v scope \<Rightarrow> string \<Rightarrow> string \<Rightarrow>
    'v callback option \<Rightarrow> ('v, 't, 'c) root \<Rightarrow> ('v, 't, 'c) result" where
  "unsubscribeDoc E n this collectionName ident cb st =
     (let cb = wrapCallback cb;
          st = st\<lparr>contexts := contextUnsubscribeDoc E this collectionName ident (contexts st)\<rparr>
      in if counterGet (subscribedDocs st) collectionName ident = 0
         then callWrapped E (emitMutation E n) cb NoArgs st
         else if unloadDelay st \<noteq> 0
         then (Normal, st\<lparr>timers := timers st @
                 [(unloadDelay st, FinishUnsubscribeDoc this collectionName ident cb)]\<rparr>)
         else finishUnsubscribeDoc E n this collectionName ident cb st)"

section \<open>Notions used to state the properties\<close>

text \<open>
  A call in the history is a dispatch when a listener of the event's own type or of type
  \<open>all\<close> is invoked, as opposed to a listener of its immediate type.
\<close>

fun isDispatch :: "'v call \<Rightarrow> bool" where
  "isDispatch (ListenerCall ty pat segments event) = (ty \<noteq> immediateType event)"
| "isDispatch (Enqueued segments event) = False"
| "isDispatch (CallbackCall args) = False"

definition dispatched :: "'v call list \<Rightarrow> 'v call list" where
  "dispatched tr = filter isDispatch tr"

fun enqueuedBy :: "'v call \<Rightarrow> (string list \<times> 'v event) list" where
  "enqueuedBy (Enqueued segments event) = [(segments, event)]"
| "enqueuedBy (ListenerCall ty pat segments event) = []"
| "enqueuedBy (CallbackCall args) = []"

definition enqueuedIn :: "'v call list \<Rightarrow> (string list \<times> 'v event) list" where
  "enqueuedIn tr = concat (map enqueuedBy tr)"

text \<open>The part of the history of \<open>st'\<close> that was added after \<open>st\<close>.\<close>

definition since :: "('v, 't, 'c) root \<Rightarrow> ('v, 't, 'c) root \<Rightarrow> 'v call list" where
  "since st st' = drop (length (trace st)) (trace st')"

text \<open>
  The calls that deliver an event: the listeners that the tree of type \<open>ty\<close> finds for the
  path, in the order of \<^verbatim>\<open>getWildcardListeners\<close>; for a whole delivery those of the
  event's own type, then those of type \<open>all\<close>.
\<close>

definition listenerCalls :: "('v, 't, 'c) env \<Rightarrow> (string \<rightharpoonup> 't) \<Rightarrow> string \<Rightarrow> string list \<Rightarrow>
    'v event \<Rightarrow> 'v call list" where
  "listenerCalls E trees ty segments event =
     (case trees ty of
        None \<Rightarrow> []
      | Some tree \<Rightarrow>
          map (\<lambda>l. ListenerCall ty (patternSegments l) segments event)
            (getWildcardListeners E tree segments))"

definition delivery :: "('v, 't, 'c) env \<Rightarrow> (string \<rightharpoonup> 't) \<Rightarrow> string list \<times> 'v event \<Rightarrow> 'v call list" where
  "delivery E trees item =
     listenerCalls E trees (etype (snd item)) (fst item) (snd item) @
     listenerCalls E trees ''all'' (fst item) (snd item)"

definition pending :: "('v, 't, 'c) root \<Rightarrow> (string list \<times> 'v event) list" where
  "pending st = (case mutationEventQueue st of None \<Rightarrow> [] | Some queue \<Rightarrow> queue)"

text \<open>
  A step made while an emission is in flight: the flag stays set, the listener trees are
  the same, the dispatch calls added to the history are \<open>ds\<close>, and the queue grew by exactly
  the pushes recorded in the history.
\<close>

definition inflight :: "'v call list \<Rightarrow> ('v, 't, 'c) root \<Rightarrow> ('v, 't, 'c) root \<Rightarrow> bool" where
  "inflight ds st st' =
     (emittingMutation st' \<and> mutationListeners st' = mutationListeners st \<and>
      (mutationEventQueue st' = Some [] \<longrightarrow> mutationEventQueue st = Some []) \<and>
      (\<exists>new. trace st' = trace st @ new \<and> dispatched new = ds \<and>
             pending st' = pending st @ enqueuedIn new))"

text \<open>
  The same for a step that may end by an exception: the dispatch calls added are all of
  \<open>ds\<close> when the step ended normally, and an initial part of \<open>ds\<close> otherwise.
\<close>

definition inflightUpTo :: "'v outcome \<Rightarrow> 'v call list \<Rightarrow> ('v, 't, 'c) root \<Rightarrow> ('v, 't, 'c) root \<Rightarrow> bool" where
  "inflightUpTo out ds st st' =
     (\<exists>done. prefix done ds \<and> (out = Normal \<longrightarrow> done = ds) \<and> inflight done st st')"

text \<open>A step that starts and ends with no emission in flight and an empty queue.\<close>

definition idle :: "('v, 't, 'c) root \<Rightarrow> ('v, 't, 'c) root \<Rightarrow> bool" where
  "idle st st' =
     (\<not> emittingMutation st' \<and> mutationEventQueue st' = None \<and>
      mutationListeners st' = mutationListeners st \<and> prefix (trace st) (trace st'))"

text \<open>
  What the nested calls of \<^verbatim>\<open>_emitMutation\<close> are known to do: in flight they only call
  immediate listeners and push on the queue, whatever their outcome; started with no
  emission in flight and an empty queue, they end so when they end normally.
\<close>

definition goodEmitter :: "('v, 't, 'c) emitter \<Rightarrow> bool" where
  "goodEmitter emit =
     (\<forall>sc segments event st out st'. emit sc segments event st = (out, st') \<longrightarrow>
        (emittingMutation st \<longrightarrow> inflight [] st st') \<and>
        (out = Normal \<and> \<not> emittingMutation st \<and> mutationEventQueue st = None \<longrightarrow> idle st st'))"

text \<open>
  \<open>k\<close> full passes of the drain loop of \<^verbatim>\<open>_emitMutation\<close>, without its counter: each pass
  takes the whole queue, clears it and delivers the events taken; the passes end early
  when the queue is \<^verbatim>\<open>null\<close>.
\<close>

fun passes :: "('v, 't, 'c) env \<Rightarrow> ('v, 't, 'c) emitter \<Rightarrow> nat \<Rightarrow> ('v, 't, 'c) root \<Rightarrow>
    ('v, 't, 'c) result" where
  "passes E emit 0 st = (Normal, st)"
| "passes E emit (Suc k) st =
     (case mutationEventQueue st of
        None \<Rightarrow> (Normal, st)
      | Some queue \<Rightarrow>
          andThen (forQueue E emit queue (st\<lparr>mutationEventQueue := None\<rparr>)) (passes E emit k))"

text \<open>
  The frame of an emission: the state \<open>st'\<close> differs from \<open>st\<close> at most in the in-flight
  flag, in the queue, and by calls added to the history.
\<close>

definition frame :: "('v, 't, 'c) root \<Rightarrow> ('v, 't, 'c) root \<Rightarrow> bool" where
  "frame st st' =
     (\<exists>flag queue new.
        st' = st\<lparr>emittingMutation := flag, mutationEventQueue := queue, trace := trace st @ new\<rparr>)"

definition framedEmitter :: "('v, 't, 'c) emitter \<Rightarrow> bool" where
  "framedEmitter emit =
     (\<forall>sc segments event st r st'. emit sc segments event st = (r, st') \<longrightarrow> frame st st')"


section \<open>An example configuration\<close>

text \<open>
  A concrete environment in which a listener tree is the list of its listeners and every
  listener matches every path; \<open>path\<close> resolves a string to itself, and an emitted
  \<open>error\<close> event is recorded in the history. \<open>retrigger k\<close> is a listener that answers
  each of its first \<open>k\<close> invocations with a new mutation of the same path, \<open>echo\<close> one
  that answers every invocation so, and \<open>watcher p\<close> one that does nothing.
\<close>

definition E0 :: "(nat, nat listener list, unit) env" where
  "E0 = \<lparr>getWildcardListeners = (\<lambda>tree segments. tree),
         addListener = (\<lambda>tree pat l. tree @ [l]),
         path = (\<lambda>sc a. case a of StrArg s \<Rightarrow> Some s | _ \<Rightarrow> None),
         emitEvent = (\<lambda>name err st. (Normal, st\<lparr>trace := trace st @ [CallbackCall (ErrArg err)]\<rparr>)),
         contextUnfetchDoc = (\<lambda>sc c i x. x),
         contextUnsubscribeDoc = (\<lambda>sc c i x. x)\<rparr>"

definition sc0 :: "nat scope" where
  "sc0 = \<lparr>silent = False, pass = [], eventContext = None\<rparr>"

definition ownCalls :: "nat call list \<Rightarrow> nat" where
  "ownCalls tr = length (filter (\<lambda>c. case c of ListenerCall ty p s e \<Rightarrow> ty = ''change'' | _ \<Rightarrow> False) tr)"

definition retrigger :: "nat \<Rightarrow> nat listener" where
  "retrigger k =
     \<lparr>patternSegments = [''**''], listenerContext = None,
      fn = (\<lambda>tr segments event. if ownCalls tr < k then [Emit sc0 segments event] else [])\<rparr>"

definition watcher :: "string \<Rightarrow> nat listener" where
  "watcher p = \<lparr>patternSegments = [p], listenerContext = None, fn = (\<lambda>tr segments event. [])\<rparr>"

definition st0 :: "(string \<rightharpoonup> nat listener list) \<Rightarrow> (nat, nat listener list, unit) root" where
  "st0 trees =
     \<lparr>mutationListeners = trees, emittingMutation = False, mutationEventQueue = None,
      eventContextListeners = Map.empty, trace = [], fetchOnly = False, unloadDelay = 0,
      fetchedDocs = (\<lambda>c i. 0), subscribedDocs = (\<lambda>c i. 0), collections = Map.empty,
      queries = Map.empty,
      share = (\<lambda>h. \<lparr>hasPending = False, destroyed = False, handed = []\<rparr>),
      timers = [], contexts = ()\<rparr>"

definition trees0 :: "nat \<Rightarrow> string \<rightharpoonup> nat listener list" where
  "trees0 k = (\<lambda>ty. Some [])(''change'' \<mapsto> [retrigger k], ''all'' \<mapsto> [watcher ''w''],
      ''changeImmediate'' \<mapsto> [watcher ''i''])"

definition ev0 :: "nat event" where "ev0 = ChangeEvent 1 0 []"

definition echo :: "nat listener" where
  "echo = \<lparr>patternSegments = [''**''], listenerContext = None,
            fn = (\<lambda>tr segments event. [Emit sc0 segments event])\<rparr>"

definition treesEcho :: "string \<rightharpoonup> nat listener list" where
  "treesEcho = (\<lambda>ty. Some [])(''change'' \<mapsto> [echo])"

text \<open>
  A listener and a completion callback that throw a string, a list of listeners with the
  thrower in the middle, a completion callback that throws \<^verbatim>\<open>null\<close>, and a state that holds
  the document
  \<open>docs.1\<close>, backed by the external handle 0 and listed by a subscribed query.
\<close>

definition thrower :: "nat listener" where
  "thrower = \<lparr>patternSegments = [''t''], listenerContext = None,
               fn = (\<lambda>tr segments event. [Throw (StringVal ''boom'')])\<rparr>"

definition treesThrow :: "string \<rightharpoonup> nat listener list" where
  "treesThrow = (\<lambda>ty. Some [])(''change'' \<mapsto> [thrower, watcher ''w''])"

definition cbThrow :: "nat callback" where
  "cbThrow = (\<lambda>tr args. [Throw (StringVal ''boom'')])"

definition treesLate :: "string \<rightharpoonup> nat listener list" where
  "treesLate = (\<lambda>ty. Some [])(''change'' \<mapsto> [watcher ''w'', thrower, watcher ''x''])"

definition cbNull :: "nat callback" where
  "cbNull = (\<lambda>tr args. [Throw NullVal])"

definition cbQuiet :: "nat callback" where
  "cbQuiet = (\<lambda>tr args. [])"

definition treesUnload :: "string \<rightharpoonup> nat listener list" where
  "treesUnload = (\<lambda>ty. Some [])(''unloadImmediate'' \<mapsto> [watcher ''i''], ''unload'' \<mapsto> [watcher ''u''])"

definition stDoc :: "(nat, nat listener list, unit) root" where
  "stDoc = (st0 treesUnload)
     \<lparr>collections := [''docs'' \<mapsto> [''1'' \<mapsto> \<lparr>docData = 7, shareDoc = Some 0\<rparr>]],
      queries := [''docs'' \<mapsto> [(''q'', \<lparr>subscribeCount = 1, fetchCount = 0, idMap = [''1'' \<mapsto> 1]\<rparr>)]]\<rparr>"

definition stPending :: "(nat, nat listener list, unit) root" where
  "stPending = stDoc
     \<lparr>queries := Map.empty,
      share := (\<lambda>h. \<lparr>hasPending = True, destroyed = False, handed = []\<rparr>)\<rparr>"

definition treesEmpty :: "string \<rightharpoonup> nat listener list" where
  "treesEmpty = (\<lambda>ty. Some [])"

text \<open>The objects of two calls of \<^verbatim>\<open>pass\<close>.\<close>

definition fromX :: "nat passed" where "fromX = [(''from'', 1)]"

definition toY :: "nat passed" where "toY = [(''to'', 2), (''from'', 3)]"

text \<open>
  \<open>countdown k\<close> answers a change event of value \<open>v\<close> below \<open>k\<close> with a change event of
  value \<open>v + 1\<close> on the same path: from the value 0 it makes a chain of \<open>k\<close> re-triggers.
\<close>

definition countdown :: "nat \<Rightarrow> nat listener" where
  "countdown k =
     \<lparr>patternSegments = [''**''], listenerContext = None,
      fn = (\<lambda>tr segments event.
              case event of
                ChangeEvent v p c \<Rightarrow>
                  if v < k then [Emit sc0 segments (ChangeEvent (Suc v) p c)] else []
              | _ \<Rightarrow> [])\<rparr>"

definition treesCount :: "nat \<Rightarrow> string \<rightharpoonup> nat listener list" where
  "treesCount k = (\<lambda>ty. Some [])(''change'' \<mapsto> [countdown k])"

section \<open>Properties of the emitter\<close>

declare drainQueue.simps [simp del]

lemma andThen_Normal [simp]: "andThen (Normal, s) f = f s"
  by (simp add: andThen_def)

lemma andThen_Thrown [simp]: "andThen (Thrown e, s) f = (Thrown e, s)"
  by (simp add: andThen_def)

lemma andThen_NormalD:
  "andThen r f = (Normal, s') \<Longrightarrow> \<exists>s1. r = (Normal, s1) \<and> f s1 = (Normal, s')"
  by (auto simp: andThen_def split: prod.splits outcome.splits)

lemma andThen_cases:
  "andThen r f = (out, s') \<Longrightarrow>
   (\<exists>e. r = (Thrown e, s') \<and> out = Thrown e) \<or> (\<exists>s1. r = (Normal, s1) \<and> f s1 = (out, s'))"
  by (auto simp: andThen_def split: prod.splits outcome.splits)

lemma dispatched_append [simp]: "dispatched (a @ b) = dispatched a @ dispatched b"
  by (simp add: dispatched_def)

lemma enqueuedIn_append [simp]: "enqueuedIn (a @ b) = enqueuedIn a @ enqueuedIn b"
  by (simp add: enqueuedIn_def)

lemma dispatched_Nil [simp]: "dispatched [] = []"
  by (simp add: dispatched_def)

lemma enqueuedIn_Nil [simp]: "enqueuedIn [] = []"
  by (simp add: enqueuedIn_def)

lemma etype_not_immediate [simp]: "etype event \<noteq> immediateType event"
  by (cases event) simp_all

lemma all_not_immediate [simp]: "''all'' \<noteq> immediateType event"
  by (cases event) simp_all

lemma dispatched_calls:
  "dispatched (map (\<lambda>l. ListenerCall ty (patternSegments l) segments event) ls) =
     (if ty = immediateType event then []
      else map (\<lambda>l. ListenerCall ty (patternSegments l) segments event) ls)"
  by (induction ls) (simp_all add: dispatched_def)

lemma enqueuedIn_calls [simp]:
  "enqueuedIn (map (\<lambda>l. ListenerCall ty (patternSegments l) segments event) ls) = []"
  by (induction ls) (simp_all add: enqueuedIn_def)

lemma dispatched_listenerCalls:
  "dispatched (listenerCalls E trees ty segments event) =
     (if ty = immediateType event then [] else listenerCalls E trees ty segments event)"
  by (simp add: listenerCalls_def dispatched_calls split: option.splits)

lemma dispatched_delivery [simp]: "dispatched (delivery E trees item) = delivery E trees item"
  by (simp add: delivery_def dispatched_listenerCalls)

lemma inflight_refl: "emittingMutation st \<Longrightarrow> inflight [] st st"
  by (simp add: inflight_def)

lemma inflight_trans:
  assumes "inflight d1 st st1" and "inflight d2 st1 st2"
  shows "inflight (d1 @ d2) st st2"
proof -
  from assms(1) obtain n1 where 1: "trace st1 = trace st @ n1" "dispatched n1 = d1"
      "pending st1 = pending st @ enqueuedIn n1"
    by (auto simp: inflight_def)
  from assms(2) obtain n2 where 2: "trace st2 = trace st1 @ n2" "dispatched n2 = d2"
      "pending st2 = pending st1 @ enqueuedIn n2"
    by (auto simp: inflight_def)
  have "trace st2 = trace st @ (n1 @ n2) \<and> dispatched (n1 @ n2) = d1 @ d2 \<and>
        pending st2 = pending st @ enqueuedIn (n1 @ n2)"
    using 1 2 by simp
  then have "\<exists>new. trace st2 = trace st @ new \<and> dispatched new = d1 @ d2 \<and>
        pending st2 = pending st @ enqueuedIn new" by blast
  with assms show ?thesis by (simp add: inflight_def)
qed

lemma inflight_flag: "inflight ds st st' \<Longrightarrow> emittingMutation st'"
  by (simp add: inflight_def)

lemma inflight_trees: "inflight ds st st' \<Longrightarrow> mutationListeners st' = mutationListeners st"
  by (simp add: inflight_def)

lemma inflight_call:
  "emittingMutation st \<Longrightarrow>
   inflight (dispatched [ListenerCall ty pat segments event]) st
     (st\<lparr>trace := trace st @ [ListenerCall ty pat segments event]\<rparr>)"
  by (simp add: inflight_def pending_def enqueuedIn_def)

lemma inflight_enqueue:
  "emittingMutation st \<Longrightarrow> inflight [] st (enqueue segments event st)"
  by (auto simp: inflight_def pending_def enqueuedIn_def enqueue_def dispatched_def split: option.splits)

lemma inflightUpTo_Normal: "inflightUpTo Normal ds st st' = inflight ds st st'"
  by (auto simp: inflightUpTo_def)

lemma inflightUpTo_Nil: "inflightUpTo out [] st st' = inflight [] st st'"
  by (auto simp: inflightUpTo_def)

lemma inflightUpTo_whole: "inflight ds st st' \<Longrightarrow> inflightUpTo out ds st st'"
  by (auto simp: inflightUpTo_def)

lemma inflightUpTo_stay: "emittingMutation st \<Longrightarrow> inflightUpTo (Thrown e) ds st st"
  unfolding inflightUpTo_def by (rule exI [of _ "[]"]) (simp add: inflight_refl)

lemma inflightUpTo_seq:
  assumes "inflight d1 st s1" and "inflightUpTo out d2 s1 st'"
  shows "inflightUpTo out (d1 @ d2) st st'"
proof -
  from assms(2) obtain ds where ds: "prefix ds d2" "out = Normal \<longrightarrow> ds = d2" "inflight ds s1 st'"
    unfolding inflightUpTo_def by blast
  from inflight_trans [OF assms(1) ds(3)] ds(1,2)
  have "prefix (d1 @ ds) (d1 @ d2) \<and> (out = Normal \<longrightarrow> d1 @ ds = d1 @ d2) \<and>
      inflight (d1 @ ds) st st'" by simp
  then show ?thesis unfolding inflightUpTo_def by blast
qed

lemma inflightUpTo_abort:
  assumes "inflightUpTo (Thrown e) d1 st st'"
  shows "inflightUpTo (Thrown e) (d1 @ d2) st st'"
proof -
  from assms obtain ds where ds: "prefix ds d1" "inflight ds st st'"
    unfolding inflightUpTo_def by blast
  from ds(1) have "prefix ds (d1 @ d2)" by (rule prefix_prefix)
  with ds(2) show ?thesis unfolding inflightUpTo_def by blast
qed


lemma inflightUpTo_trees: "inflightUpTo out ds st st' \<Longrightarrow> mutationListeners st' = mutationListeners st"
  by (auto simp: inflightUpTo_def inflight_def)

text \<open>Steps made while an emission is in flight, whatever their outcome.\<close>

lemma runCmds_inflight:
  assumes "goodEmitter emit"
  shows "emittingMutation st \<Longrightarrow> runCmds emit cs st = (out, st') \<Longrightarrow> inflight [] st st'"
proof (induction cs arbitrary: st)
  case Nil
  then show ?case by (simp add: inflight_refl)
next
  case (Cons c cs)
  show ?case
  proof (cases c)
    case (Emit sc segments event)
    with Cons.prems have "andThen (emit sc segments event st) (runCmds emit cs) = (out, st')" by simp
    from andThen_cases [OF this] show ?thesis
    proof
      assume "\<exists>e. emit sc segments event st = (Thrown e, st') \<and> out = Thrown e"
      with assms Cons.prems(1) show ?thesis by (auto simp: goodEmitter_def)
    next
      assume "\<exists>s1. emit sc segments event st = (Normal, s1) \<and> runCmds emit cs s1 = (out, st')"
      then obtain s1 where a: "emit sc segments event st = (Normal, s1)"
          and b: "runCmds emit cs s1 = (out, st')" by blast
      from assms a Cons.prems(1) have i1: "inflight [] st s1"
        by (auto simp: goodEmitter_def)
      then have "emittingMutation s1" by (rule inflight_flag)
      from Cons.IH [OF this b] have "inflight [] s1 st'" .
      with i1 have "inflight ([] @ []) st st'" by (rule inflight_trans)
      then show ?thesis by simp
    qed
  next
    case (Throw e)
    with Cons.prems show ?thesis by (simp add: inflight_refl)
  qed
qed

lemma callListeners_inflight:
  assumes "goodEmitter emit"
  shows "emittingMutation st \<Longrightarrow> callListeners emit ty segments event ls st = (out, st') \<Longrightarrow>
     inflightUpTo out (dispatched (map (\<lambda>l. ListenerCall ty (patternSegments l) segments event) ls))
       st st'"
proof (induction ls arbitrary: st)
  case Nil
  then show ?case by (simp add: inflightUpTo_Nil inflight_refl)
next
  case (Cons l ls)
  let ?c = "ListenerCall ty (patternSegments l) segments event"
  let ?sa = "st\<lparr>trace := trace st @ [?c]\<rparr>"
  let ?rest = "dispatched (map (\<lambda>l. ListenerCall ty (patternSegments l) segments event) ls)"
  have eq: "dispatched (map (\<lambda>l. ListenerCall ty (patternSegments l) segments event) (l # ls)) =
      (dispatched [?c] @ []) @ ?rest"
    by (simp add: dispatched_def)
  have i0: "inflight (dispatched [?c]) st ?sa" using Cons.prems(1) by (rule inflight_call)
  then have fa: "emittingMutation ?sa" by (rule inflight_flag)
  from Cons.prems(2) have "andThen (runCmds emit (fn l (trace st) segments event) ?sa)
      (callListeners emit ty segments event ls) = (out, st')" by simp
  from andThen_cases [OF this] show ?case
  proof
    assume "\<exists>e. runCmds emit (fn l (trace st) segments event) ?sa = (Thrown e, st') \<and> out = Thrown e"
    then obtain e where a: "runCmds emit (fn l (trace st) segments event) ?sa = (Thrown e, st')"
        and o: "out = Thrown e" by blast
    from runCmds_inflight [OF assms fa a] have "inflight [] ?sa st'" .
    with i0 have "inflight (dispatched [?c] @ []) st st'" by (rule inflight_trans)
    then have "inflightUpTo (Thrown e) (dispatched [?c] @ []) st st'" by (rule inflightUpTo_whole)
    then show ?thesis unfolding eq o by (rule inflightUpTo_abort)
  next
    assume "\<exists>s1. runCmds emit (fn l (trace st) segments event) ?sa = (Normal, s1) \<and>
        callListeners emit ty segments event ls s1 = (out, st')"
    then obtain s1 where a: "runCmds emit (fn l (trace st) segments event) ?sa = (Normal, s1)"
        and b: "callListeners emit ty segments event ls s1 = (out, st')" by blast
    from runCmds_inflight [OF assms fa a] have i1: "inflight [] ?sa s1" .
    then have "emittingMutation s1" by (rule inflight_flag)
    from Cons.IH [OF this b] have i2: "inflightUpTo out ?rest s1 st'" .
    show ?thesis unfolding eq by (rule inflightUpTo_seq [OF inflight_trans [OF i0 i1] i2])
  qed
qed

lemma callMutationListeners_inflight:
  assumes "goodEmitter emit" and "emittingMutation st"
    and "callMutationListeners E emit ty segments event st = (out, st')"
  shows "inflightUpTo out (dispatched (listenerCalls E (mutationListeners st) ty segments event)) st st'"
proof (cases "mutationListeners st ty")
  case None
  with assms(3) have "out = Thrown typeError" "st' = st"
    by (simp_all add: callMutationListeners_def)
  with assms(2) show ?thesis by (simp add: inflightUpTo_stay)
next
  case (Some tree)
  with assms(3) callListeners_inflight [OF assms(1,2)] show ?thesis
    by (simp add: callMutationListeners_def listenerCalls_def)
qed

lemma forQueue_inflight:
  assumes "goodEmitter emit"
  shows "emittingMutation st \<Longrightarrow> forQueue E emit queue st = (out, st') \<Longrightarrow>
     inflightUpTo out (concat (map (delivery E (mutationListeners st)) queue)) st st'"
proof (induction queue arbitrary: st)
  case Nil
  then show ?case by (simp add: inflightUpTo_Nil inflight_refl)
next
  case (Cons item queue)
  obtain segments event where item: "item = (segments, event)" by (cases item)
  let ?own = "listenerCalls E (mutationListeners st) (etype event) segments event"
  let ?all = "listenerCalls E (mutationListeners st) ''all'' segments event"
  let ?rest = "concat (map (delivery E (mutationListeners st)) queue)"
  have eq: "concat (map (delivery E (mutationListeners st)) (item # queue)) = ?own @ (?all @ ?rest)"
    by (simp add: item delivery_def)
  from Cons.prems(2) item have "andThen (callMutationListeners E emit (etype event) segments event st)
      (\<lambda>st. andThen (callMutationListeners E emit ''all'' segments event st)
         (\<lambda>st. forQueue E emit queue st)) = (out, st')" by simp
  from andThen_cases [OF this] show ?case
  proof
    assume "\<exists>e. callMutationListeners E emit (etype event) segments event st = (Thrown e, st') \<and>
        out = Thrown e"
    then obtain e where a: "callMutationListeners E emit (etype event) segments event st = (Thrown e, st')"
        and o: "out = Thrown e" by blast
    from callMutationListeners_inflight [OF assms Cons.prems(1) a]
    have "inflightUpTo (Thrown e) ?own st st'" by (simp add: dispatched_listenerCalls)
    then show ?thesis unfolding eq o by (rule inflightUpTo_abort)
  next
    assume "\<exists>s1. callMutationListeners E emit (etype event) segments event st = (Normal, s1) \<and>
        andThen (callMutationListeners E emit ''all'' segments event s1)
          (\<lambda>st. forQueue E emit queue st) = (out, st')"
    then obtain s1 where a: "callMutationListeners E emit (etype event) segments event st = (Normal, s1)"
        and b: "andThen (callMutationListeners E emit ''all'' segments event s1)
          (\<lambda>st. forQueue E emit queue st) = (out, st')" by blast
    from callMutationListeners_inflight [OF assms Cons.prems(1) a]
    have i1: "inflight ?own st s1" by (simp add: dispatched_listenerCalls inflightUpTo_Normal)
    have t1: "mutationListeners s1 = mutationListeners st" using i1 by (rule inflight_trees)
    have f1: "emittingMutation s1" using i1 by (rule inflight_flag)
    from andThen_cases [OF b] have "inflightUpTo out (?all @ ?rest) s1 st'"
    proof
      assume "\<exists>e. callMutationListeners E emit ''all'' segments event s1 = (Thrown e, st') \<and>
          out = Thrown e"
      then obtain e where c: "callMutationListeners E emit ''all'' segments event s1 = (Thrown e, st')"
          and o: "out = Thrown e" by blast
      from callMutationListeners_inflight [OF assms f1 c]
      have "inflightUpTo (Thrown e) ?all s1 st'" by (simp add: dispatched_listenerCalls t1)
      then show ?thesis unfolding o by (rule inflightUpTo_abort)
    next
      assume "\<exists>s2. callMutationListeners E emit ''all'' segments event s1 = (Normal, s2) \<and>
          forQueue E emit queue s2 = (out, st')"
      then obtain s2 where c: "callMutationListeners E emit ''all'' segments event s1 = (Normal, s2)"
          and d: "forQueue E emit queue s2 = (out, st')" by blast
      from callMutationListeners_inflight [OF assms f1 c]
      have i2: "inflight ?all s1 s2" by (simp add: dispatched_listenerCalls inflightUpTo_Normal t1)
      have t2: "mutationListeners s2 = mutationListeners st" using i2 t1 by (simp add: inflight_def)
      from Cons.IH [OF inflight_flag [OF i2] d] have "inflightUpTo out ?rest s2 st'"
        by (simp add: t2)
      with i2 show ?thesis by (rule inflightUpTo_seq)
    qed
    with i1 show ?thesis unfolding eq by (rule inflightUpTo_seq)
  qed
qed

lemma drainQueue_inflight:
  "goodEmitter emit \<Longrightarrow> emittingMutation st \<Longrightarrow> drainQueue E emit limit st = (out, st') \<Longrightarrow>
     emittingMutation st' \<and> mutationListeners st' = mutationListeners st \<and>
     (\<exists>new. trace st' = trace st @ new \<and>
        prefix (dispatched new)
          (concat (map (delivery E (mutationListeners st)) (pending st @ enqueuedIn new))) \<and>
        (out = Normal \<longrightarrow> mutationEventQueue st' = None \<and>
           dispatched new =
             concat (map (delivery E (mutationListeners st)) (pending st @ enqueuedIn new))))"
proof (induction E emit limit st rule: drainQueue.induct)
  case (1 E emit limit st)
  let ?D = "\<lambda>q. concat (map (delivery E (mutationListeners st)) q)"
  have stay: ?case if "st' = st" "out = Normal \<longrightarrow> mutationEventQueue st = None"
  proof -
    have "trace st' = trace st @ [] \<and> prefix (dispatched []) (?D (pending st @ enqueuedIn [])) \<and>
        (out = Normal \<longrightarrow> mutationEventQueue st' = None \<and>
           dispatched [] = ?D (pending st @ enqueuedIn []))"
      using that by (auto simp: pending_def)
    then have "\<exists>new. trace st' = trace st @ new \<and> prefix (dispatched new) (?D (pending st @ enqueuedIn new)) \<and>
        (out = Normal \<longrightarrow> mutationEventQueue st' = None \<and>
           dispatched new = ?D (pending st @ enqueuedIn new))" by blast
    with that "1.prems"(2) show ?thesis by simp
  qed
  show ?case
  proof (cases "mutationEventQueue st")
    case None
    with "1.prems" have "st' = st" "out = Normal" by (simp_all add: drainQueue.simps)
    with None show ?thesis by (intro stay) simp_all
  next
    case (Some queue)
    show ?thesis
    proof (cases "limit - 1 < 0")
      case True
      with Some "1.prems"(3) have "st' = st" "out \<noteq> Normal" by (auto simp: drainQueue.simps)
      then show ?thesis by (intro stay) simp_all
    next
      case False
      let ?s0 = "st\<lparr>mutationEventQueue := None\<rparr>"
      have f0: "emittingMutation ?s0" using "1.prems"(2) by simp
      from Some False "1.prems"(3) have "andThen (forQueue E emit queue ?s0)
          (drainQueue E emit (limit - 1)) = (out, st')" by (simp add: drainQueue.simps)
      from andThen_cases [OF this] show ?thesis
      proof
        assume "\<exists>e. forQueue E emit queue ?s0 = (Thrown e, st') \<and> out = Thrown e"
        then obtain e where a: "forQueue E emit queue ?s0 = (Thrown e, st')" and o: "out = Thrown e"
          by blast
        from forQueue_inflight [OF "1.prems"(1) f0 a]
        obtain ds new where ds: "prefix ds (?D queue)" "emittingMutation st'"
            "mutationListeners st' = mutationListeners st" "trace st' = trace st @ new"
            "dispatched new = ds"
          by (auto simp: inflightUpTo_def inflight_def)
        have "prefix (?D queue) (?D (pending st @ enqueuedIn new))"
          using Some by (simp add: pending_def)
        with ds(1) have "prefix ds (?D (pending st @ enqueuedIn new))" by (rule prefix_order.trans)
        with ds o have "trace st' = trace st @ new \<and>
            prefix (dispatched new) (?D (pending st @ enqueuedIn new)) \<and>
            (out = Normal \<longrightarrow> mutationEventQueue st' = None \<and>
               dispatched new = ?D (pending st @ enqueuedIn new))" by simp
        then have "\<exists>new. trace st' = trace st @ new \<and>
            prefix (dispatched new) (?D (pending st @ enqueuedIn new)) \<and>
            (out = Normal \<longrightarrow> mutationEventQueue st' = None \<and>
               dispatched new = ?D (pending st @ enqueuedIn new))" by blast
        with ds(2,3) show ?thesis by simp
      next
        assume "\<exists>s1. forQueue E emit queue ?s0 = (Normal, s1) \<and>
            drainQueue E emit (limit - 1) s1 = (out, st')"
        then obtain s1 where a: "forQueue E emit queue ?s0 = (Normal, s1)"
            and b: "drainQueue E emit (limit - 1) s1 = (out, st')" by blast
        from forQueue_inflight [OF "1.prems"(1) f0 a]
        have i1: "inflight (?D queue) ?s0 s1" by (simp add: inflightUpTo_Normal)
        then obtain n1 where n1: "trace s1 = trace st @ n1" "dispatched n1 = ?D queue"
            "pending s1 = enqueuedIn n1"
          by (auto simp: inflight_def pending_def)
        have t1: "mutationListeners s1 = mutationListeners st" using i1 by (simp add: inflight_def)
        from "1.IH" [OF Some False "1.prems"(1) inflight_flag [OF i1] b] t1 n1(3)
        obtain n2 where n2: "emittingMutation st'"
            "mutationListeners st' = mutationListeners st" "trace st' = trace s1 @ n2"
            "prefix (dispatched n2) (?D (enqueuedIn n1 @ enqueuedIn n2))"
            "out = Normal \<longrightarrow> mutationEventQueue st' = None \<and>
               dispatched n2 = ?D (enqueuedIn n1 @ enqueuedIn n2)"
          by auto
        have "trace st' = trace st @ (n1 @ n2) \<and>
            prefix (dispatched (n1 @ n2)) (?D (pending st @ enqueuedIn (n1 @ n2))) \<and>
            (out = Normal \<longrightarrow> mutationEventQueue st' = None \<and>
               dispatched (n1 @ n2) = ?D (pending st @ enqueuedIn (n1 @ n2)))"
          using n1 n2 Some by (simp add: pending_def)
        then have "\<exists>new. trace st' = trace st @ new \<and>
            prefix (dispatched new) (?D (pending st @ enqueuedIn new)) \<and>
            (out = Normal \<longrightarrow> mutationEventQueue st' = None \<and>
               dispatched new = ?D (pending st @ enqueuedIn new))" by blast
        with n2(1,2) show ?thesis by simp
      qed
    qed
  qed
qed

lemma idle_refl: "\<not> emittingMutation st \<Longrightarrow> mutationEventQueue st = None \<Longrightarrow> idle st st"
  by (simp add: idle_def)

lemma idle_trans: "idle st s1 \<Longrightarrow> idle s1 s2 \<Longrightarrow> idle st s2"
  by (auto simp: idle_def)

lemma runCmds_idle:
  assumes "goodEmitter emit"
  shows "\<not> emittingMutation st \<Longrightarrow> mutationEventQueue st = None \<Longrightarrow>
     runCmds emit cs st = (Normal, st') \<Longrightarrow> idle st st'"
proof (induction cs arbitrary: st)
  case Nil
  then show ?case by (simp add: idle_refl)
next
  case (Cons c cs)
  show ?case
  proof (cases c)
    case (Emit sc segments event)
    with Cons.prems obtain s1 where a: "emit sc segments event st = (Normal, s1)"
        and b: "runCmds emit cs s1 = (Normal, st')"
      by (auto dest: andThen_NormalD)
    from assms a Cons.prems(1,2) have i1: "idle st s1"
      by (auto simp: goodEmitter_def)
    then have "\<not> emittingMutation s1" "mutationEventQueue s1 = None" by (simp_all add: idle_def)
    from Cons.IH [OF this b] i1 show ?thesis by (blast intro: idle_trans)
  next
    case (Throw e)
    with Cons.prems show ?thesis by simp
  qed
qed

lemma callListeners_idle:
  assumes "goodEmitter emit"
  shows "\<not> emittingMutation st \<Longrightarrow> mutationEventQueue st = None \<Longrightarrow>
     callListeners emit ty segments event ls st = (Normal, st') \<Longrightarrow> idle st st'"
proof (induction ls arbitrary: st)
  case Nil
  then show ?case by (simp add: idle_refl)
next
  case (Cons l ls)
  let ?sa = "st\<lparr>trace := trace st @ [ListenerCall ty (patternSegments l) segments event]\<rparr>"
  from Cons.prems obtain s1 where a: "runCmds emit (fn l (trace st) segments event) ?sa = (Normal, s1)"
      and b: "callListeners emit ty segments event ls s1 = (Normal, st')"
    by (auto dest: andThen_NormalD)
  have i0: "idle st ?sa" using Cons.prems(1,2) by (simp add: idle_def)
  have "\<not> emittingMutation ?sa" "mutationEventQueue ?sa = None" using Cons.prems(1,2) by simp_all
  from runCmds_idle [OF assms this a] have i1: "idle ?sa s1" .
  then have "\<not> emittingMutation s1" "mutationEventQueue s1 = None" by (simp_all add: idle_def)
  from Cons.IH [OF this b] i0 i1 show ?case by (blast intro: idle_trans)
qed

lemma callMutationListeners_idle:
  assumes "goodEmitter emit" and "\<not> emittingMutation st" and "mutationEventQueue st = None"
    and "callMutationListeners E emit ty segments event st = (Normal, st')"
  shows "idle st st'"
  using assms(4) callListeners_idle [OF assms(1,2,3)]
  by (auto simp: callMutationListeners_def split: option.splits)

text \<open>An emission that starts with no other emission in flight.\<close>

lemma emitMutationBody_top:
  assumes good: "goodEmitter emit" and ns: "\<not> silent this" and nf: "\<not> emittingMutation st"
    and q: "mutationEventQueue st = None"
    and imm: "callMutationListeners E emit (immediateType event) segments event st = (Normal, st1)"
    and run: "emitMutationBody E emit this segments event st = (out, st')"
  shows "idle st st1 \<and>
         (\<exists>new. trace st' = trace st1 @ new \<and>
            prefix (dispatched new)
              (concat (map (delivery E (mutationListeners st)) ((segments, event) # enqueuedIn new))) \<and>
            (out = Normal \<longrightarrow> idle st st' \<and>
               dispatched new =
                 concat (map (delivery E (mutationListeners st)) ((segments, event) # enqueuedIn new))))"
proof -
  let ?D = "\<lambda>q. concat (map (delivery E (mutationListeners st)) q)"
  let ?own = "listenerCalls E (mutationListeners st) (etype event) segments event"
  let ?all = "listenerCalls E (mutationListeners st) ''all'' segments event"
  from callMutationListeners_idle [OF good nf q imm] have id1: "idle st st1" .
  then have nf1: "\<not> emittingMutation st1" and q1: "mutationEventQueue st1 = None"
      and t1: "mutationListeners st1 = mutationListeners st"
    by (simp_all add: idle_def)
  let ?s1 = "st1\<lparr>emittingMutation := True\<rparr>"
  have f1: "emittingMutation ?s1" by simp
  have dt: "?D ((segments, event) # q) = ?own @ ?all @ ?D q" for q
    by (simp add: delivery_def)
  have early: "\<exists>new. trace st' = trace st1 @ new \<and>
            prefix (dispatched new) (?D ((segments, event) # enqueuedIn new)) \<and>
            (out = Normal \<longrightarrow> idle st st' \<and> dispatched new = ?D ((segments, event) # enqueuedIn new))"
    if u: "inflightUpTo (Thrown e) (?own @ ?all) ?s1 st'" and o: "out = Thrown e" for e
  proof -
    from u obtain ds new where ds: "prefix ds (?own @ ?all)" "trace st' = trace st1 @ new"
        "dispatched new = ds"
      by (auto simp: inflightUpTo_def inflight_def)
    have "prefix (?own @ ?all) (?D ((segments, event) # enqueuedIn new))"
      unfolding dt by simp
    with ds(1) have "prefix ds (?D ((segments, event) # enqueuedIn new))" by (rule prefix_order.trans)
    with ds(2,3) o have "trace st' = trace st1 @ new \<and>
            prefix (dispatched new) (?D ((segments, event) # enqueuedIn new)) \<and>
            (out = Normal \<longrightarrow> idle st st' \<and> dispatched new = ?D ((segments, event) # enqueuedIn new))"
      by simp
    then show ?thesis by blast
  qed
  from run ns imm nf1 have "andThen (callMutationListeners E emit (etype event) segments event ?s1) (\<lambda>st.
               andThen (callMutationListeners E emit ''all'' segments event st) (\<lambda>st.
               andThen (drainQueue E emit 1000 st) (\<lambda>st.
               (Normal, st\<lparr>emittingMutation := False\<rparr>)))) = (out, st')"
    by (simp add: emitMutationBody_def)
  from andThen_cases [OF this] have "\<exists>new. trace st' = trace st1 @ new \<and>
            prefix (dispatched new) (?D ((segments, event) # enqueuedIn new)) \<and>
            (out = Normal \<longrightarrow> idle st st' \<and> dispatched new = ?D ((segments, event) # enqueuedIn new))"
  proof
    assume "\<exists>e. callMutationListeners E emit (etype event) segments event ?s1 = (Thrown e, st') \<and>
        out = Thrown e"
    then obtain e where a: "callMutationListeners E emit (etype event) segments event ?s1 = (Thrown e, st')"
        and o: "out = Thrown e" by blast
    from callMutationListeners_inflight [OF good f1 a]
    have "inflightUpTo (Thrown e) ?own ?s1 st'" by (simp add: dispatched_listenerCalls t1)
    then have "inflightUpTo (Thrown e) (?own @ ?all) ?s1 st'" by (rule inflightUpTo_abort)
    then show ?thesis using o by (rule early)
  next
    assume "\<exists>s2. callMutationListeners E emit (etype event) segments event ?s1 = (Normal, s2) \<and>
        andThen (callMutationListeners E emit ''all'' segments event s2) (\<lambda>st.
          andThen (drainQueue E emit 1000 st) (\<lambda>st.
          (Normal, st\<lparr>emittingMutation := False\<rparr>))) = (out, st')"
    then obtain s2 where own: "callMutationListeners E emit (etype event) segments event ?s1 = (Normal, s2)"
        and b: "andThen (callMutationListeners E emit ''all'' segments event s2) (\<lambda>st.
          andThen (drainQueue E emit 1000 st) (\<lambda>st.
          (Normal, st\<lparr>emittingMutation := False\<rparr>))) = (out, st')" by blast
    from callMutationListeners_inflight [OF good f1 own]
    have i2: "inflight ?own ?s1 s2" by (simp add: dispatched_listenerCalls inflightUpTo_Normal t1)
    have t2: "mutationListeners s2 = mutationListeners st" using i2 t1 by (simp add: inflight_def)
    from andThen_cases [OF b] show ?thesis
    proof
      assume "\<exists>e. callMutationListeners E emit ''all'' segments event s2 = (Thrown e, st') \<and>
          out = Thrown e"
      then obtain e where a: "callMutationListeners E emit ''all'' segments event s2 = (Thrown e, st')"
          and o: "out = Thrown e" by blast
      from callMutationListeners_inflight [OF good inflight_flag [OF i2] a]
      have "inflightUpTo (Thrown e) ?all s2 st'" by (simp add: dispatched_listenerCalls t2)
      with i2 have "inflightUpTo (Thrown e) (?own @ ?all) ?s1 st'" by (rule inflightUpTo_seq)
      then show ?thesis using o by (rule early)
    next
      assume "\<exists>s3. callMutationListeners E emit ''all'' segments event s2 = (Normal, s3) \<and>
          andThen (drainQueue E emit 1000 s3) (\<lambda>st.
            (Normal, st\<lparr>emittingMutation := False\<rparr>)) = (out, st')"
      then obtain s3 where al: "callMutationListeners E emit ''all'' segments event s2 = (Normal, s3)"
          and d: "andThen (drainQueue E emit 1000 s3) (\<lambda>st.
            (Normal, st\<lparr>emittingMutation := False\<rparr>)) = (out, st')" by blast
      from callMutationListeners_inflight [OF good inflight_flag [OF i2] al]
      have i3: "inflight ?all s2 s3" by (simp add: dispatched_listenerCalls inflightUpTo_Normal t2)
      from inflight_trans [OF i2 i3] have i23: "inflight (?own @ ?all) ?s1 s3" .
      then obtain n1 where n1: "trace s3 = trace st1 @ n1" "dispatched n1 = ?own @ ?all"
          "pending s3 = enqueuedIn n1"
        using q1 by (auto simp: inflight_def pending_def)
      have t3: "mutationListeners s3 = mutationListeners st" using i23 t1 by (simp add: inflight_def)
      have dr: "\<exists>n2. trace s4 = trace s3 @ n2 \<and> mutationListeners s4 = mutationListeners st \<and>
          prefix (dispatched n2) (?D (enqueuedIn n1 @ enqueuedIn n2)) \<and>
          (o4 = Normal \<longrightarrow> mutationEventQueue s4 = None \<and>
             dispatched n2 = ?D (enqueuedIn n1 @ enqueuedIn n2))"
        if "drainQueue E emit 1000 s3 = (o4, s4)" for o4 s4
        using drainQueue_inflight [OF good inflight_flag [OF i23] that] t3 n1(3) by auto
      from andThen_cases [OF d] show ?thesis
      proof
        assume "\<exists>e. drainQueue E emit 1000 s3 = (Thrown e, st') \<and> out = Thrown e"
        then obtain e where a: "drainQueue E emit 1000 s3 = (Thrown e, st')" and o: "out = Thrown e"
          by blast
        from dr [OF a] obtain n2 where n2: "trace st' = trace s3 @ n2"
            "prefix (dispatched n2) (?D (enqueuedIn n1 @ enqueuedIn n2))" by blast
        have "trace st' = trace st1 @ (n1 @ n2) \<and>
            prefix (dispatched (n1 @ n2)) (?D ((segments, event) # enqueuedIn (n1 @ n2))) \<and>
            (out = Normal \<longrightarrow> idle st st' \<and>
               dispatched (n1 @ n2) = ?D ((segments, event) # enqueuedIn (n1 @ n2)))"
          using n1 n2 o unfolding dt by simp
        then show ?thesis by blast
      next
        assume "\<exists>s4. drainQueue E emit 1000 s3 = (Normal, s4) \<and>
            (Normal, s4\<lparr>emittingMutation := False\<rparr>) = (out, st')"
        then obtain s4 where a: "drainQueue E emit 1000 s3 = (Normal, s4)"
            and fin: "st' = s4\<lparr>emittingMutation := False\<rparr>" and o: "out = Normal" by auto
        from dr [OF a] obtain n2 where n2: "trace s4 = trace s3 @ n2"
            "mutationListeners s4 = mutationListeners st" "mutationEventQueue s4 = None"
            "dispatched n2 = ?D (enqueuedIn n1 @ enqueuedIn n2)" by blast
        have tr: "trace st' = trace st1 @ (n1 @ n2)" using fin n1 n2 by simp
        have "prefix (trace st) (trace st')" using id1 tr by (auto simp: idle_def prefix_def)
        then have id': "idle st st'" using fin n2 by (simp add: idle_def)
        have "dispatched (n1 @ n2) = ?D ((segments, event) # enqueuedIn (n1 @ n2))"
          using n1 n2 unfolding dt by simp
        with tr id' have "trace st' = trace st1 @ (n1 @ n2) \<and>
            prefix (dispatched (n1 @ n2)) (?D ((segments, event) # enqueuedIn (n1 @ n2))) \<and>
            (out = Normal \<longrightarrow> idle st st' \<and>
               dispatched (n1 @ n2) = ?D ((segments, event) # enqueuedIn (n1 @ n2)))"
          by simp
        then show ?thesis by blast
      qed
    qed
  qed
  with id1 show ?thesis by simp
qed

lemma emitMutationBody_inflight:
  assumes good: "goodEmitter emit" and fl: "emittingMutation st"
    and run: "emitMutationBody E emit this segments event st = (out, st')"
  shows "inflight [] st st'"
proof (cases "silent this")
  case True
  with run fl show ?thesis by (simp add: emitMutationBody_def inflight_refl)
next
  case False
  with run have "andThen (callMutationListeners E emit (immediateType event) segments event st)
        (\<lambda>st1. if emittingMutation st1 then (Normal, enqueue segments event st1)
          else andThen (callMutationListeners E emit (etype event) segments event
                     (st1\<lparr>emittingMutation := True\<rparr>)) (\<lambda>st.
               andThen (callMutationListeners E emit ''all'' segments event st) (\<lambda>st.
               andThen (drainQueue E emit 1000 st) (\<lambda>st.
               (Normal, st\<lparr>emittingMutation := False\<rparr>))))) = (out, st')"
    by (simp add: emitMutationBody_def)
  from andThen_cases [OF this] show ?thesis
  proof
    assume "\<exists>e. callMutationListeners E emit (immediateType event) segments event st = (Thrown e, st') \<and>
        out = Thrown e"
    then obtain e where a: "callMutationListeners E emit (immediateType event) segments event st
        = (Thrown e, st')" by blast
    from callMutationListeners_inflight [OF good fl a] show ?thesis
      by (simp add: dispatched_listenerCalls inflightUpTo_Nil)
  next
    assume "\<exists>st1. callMutationListeners E emit (immediateType event) segments event st = (Normal, st1) \<and>
        (if emittingMutation st1 then (Normal, enqueue segments event st1)
          else andThen (callMutationListeners E emit (etype event) segments event
                     (st1\<lparr>emittingMutation := True\<rparr>)) (\<lambda>st.
               andThen (callMutationListeners E emit ''all'' segments event st) (\<lambda>st.
               andThen (drainQueue E emit 1000 st) (\<lambda>st.
               (Normal, st\<lparr>emittingMutation := False\<rparr>))))) = (out, st')"
    then obtain st1 where
        imm: "callMutationListeners E emit (immediateType event) segments event st = (Normal, st1)"
        and rest: "(if emittingMutation st1 then (Normal, enqueue segments event st1)
          else andThen (callMutationListeners E emit (etype event) segments event
                     (st1\<lparr>emittingMutation := True\<rparr>)) (\<lambda>st.
               andThen (callMutationListeners E emit ''all'' segments event st) (\<lambda>st.
               andThen (drainQueue E emit 1000 st) (\<lambda>st.
               (Normal, st\<lparr>emittingMutation := False\<rparr>))))) = (out, st')" by blast
    from callMutationListeners_inflight [OF good fl imm]
    have i1: "inflight [] st st1" by (simp add: dispatched_listenerCalls inflightUpTo_Nil)
    then have f1: "emittingMutation st1" by (rule inflight_flag)
    with rest have "st' = enqueue segments event st1" by simp
    with inflight_trans [OF i1 inflight_enqueue [OF f1]] show ?thesis by simp
  qed
qed

lemma emitMutationBody_good:
  assumes "goodEmitter emit"
  shows "goodEmitter (emitMutationBody E emit)"
  unfolding goodEmitter_def
proof (intro allI impI conjI)
  fix sc segments event st out st'
  assume run: "emitMutationBody E emit sc segments event st = (out, st')"
  { assume "emittingMutation st"
    with assms run show "inflight [] st st'" by (blast intro: emitMutationBody_inflight) }
  { assume a: "out = Normal \<and> \<not> emittingMutation st \<and> mutationEventQueue st = None"
    show "idle st st'"
    proof (cases "silent sc")
      case True
      with run a show ?thesis by (simp add: emitMutationBody_def idle_refl)
    next
      case False
      from a have nf: "\<not> emittingMutation st" and q: "mutationEventQueue st = None"
          and o: "out = Normal" by simp_all
      from run False o obtain st1 where
          "callMutationListeners E emit (immediateType event) segments event st = (Normal, st1)"
        by (auto simp: emitMutationBody_def dest!: andThen_NormalD)
      from emitMutationBody_top [OF assms False nf q this run] o show ?thesis by auto
    qed }
qed

lemma emitMutation_good: "goodEmitter (emitMutation E n)"
proof (induction n)
  case 0
  show ?case by (simp add: goodEmitter_def inflight_refl)
next
  case (Suc n)
  then show ?case by (simp add: emitMutationBody_good)
qed

lemma since_append: "trace st' = trace st @ new \<Longrightarrow> since st st' = new"
  by (simp add: since_def)

lemma collapse_Normal: "fst r = Normal \<Longrightarrow> r = (Normal, snd r)"
  by (cases r) simp

text \<open>An emission changes the flag, the queue and the history only, whatever its outcome.\<close>

lemma frame_refl: "frame st st"
proof -
  have "st = st\<lparr>emittingMutation := emittingMutation st, mutationEventQueue := mutationEventQueue st,
      trace := trace st @ []\<rparr>" by simp
  then show ?thesis unfolding frame_def by blast
qed

lemma frame_trans:
  assumes "frame st s1" and "frame s1 s2"
  shows "frame st s2"
proof -
  from assms(1) obtain f1 q1 n1 where 1:
      "s1 = st\<lparr>emittingMutation := f1, mutationEventQueue := q1, trace := trace st @ n1\<rparr>"
    unfolding frame_def by blast
  from assms(2) obtain f2 q2 n2 where 2:
      "s2 = s1\<lparr>emittingMutation := f2, mutationEventQueue := q2, trace := trace s1 @ n2\<rparr>"
    unfolding frame_def by blast
  have "s2 = st\<lparr>emittingMutation := f2, mutationEventQueue := q2, trace := trace st @ (n1 @ n2)\<rparr>"
    unfolding 2 1 by simp
  then show ?thesis unfolding frame_def by blast
qed

lemma frame_prefix: "frame st st' \<Longrightarrow> prefix (trace st) (trace st')"
  by (auto simp: frame_def)

lemma frame_call: "frame st (st\<lparr>trace := trace st @ new\<rparr>)"
proof -
  have "st\<lparr>trace := trace st @ new\<rparr> =
      st\<lparr>emittingMutation := emittingMutation st, mutationEventQueue := mutationEventQueue st,
        trace := trace st @ new\<rparr>" by simp
  then show ?thesis unfolding frame_def by blast
qed

lemma frame_flag: "frame st (st\<lparr>emittingMutation := b\<rparr>)"
proof -
  have "st\<lparr>emittingMutation := b\<rparr> =
      st\<lparr>emittingMutation := b, mutationEventQueue := mutationEventQueue st,
        trace := trace st @ []\<rparr>" by simp
  then show ?thesis unfolding frame_def by blast
qed

lemma frame_queue: "frame st (st\<lparr>mutationEventQueue := q\<rparr>)"
proof -
  have "st\<lparr>mutationEventQueue := q\<rparr> =
      st\<lparr>emittingMutation := emittingMutation st, mutationEventQueue := q,
        trace := trace st @ []\<rparr>" by simp
  then show ?thesis unfolding frame_def by blast
qed

lemma frame_enqueue: "frame st (enqueue segments event st)"
proof -
  have "enqueue segments event st =
      st\<lparr>emittingMutation := emittingMutation st,
         mutationEventQueue := mutationEventQueue (enqueue segments event st),
         trace := trace st @ [Enqueued segments event]\<rparr>"
    by (simp add: enqueue_def)
  then show ?thesis unfolding frame_def by blast
qed

lemma runCmds_frame:
  assumes "framedEmitter emit"
  shows "runCmds emit cs st = (out, st') \<Longrightarrow> frame st st'"
proof (induction cs arbitrary: st)
  case Nil
  then show ?case by (simp add: frame_refl)
next
  case (Cons c cs)
  show ?case
  proof (cases c)
    case (Emit sc segments event)
    with Cons.prems have "andThen (emit sc segments event st) (runCmds emit cs) = (out, st')" by simp
    from andThen_cases [OF this] show ?thesis
    proof
      assume "\<exists>e. emit sc segments event st = (Thrown e, st') \<and> out = Thrown e"
      with assms show ?thesis by (auto simp: framedEmitter_def)
    next
      assume "\<exists>s1. emit sc segments event st = (Normal, s1) \<and> runCmds emit cs s1 = (out, st')"
      then obtain s1 where a: "emit sc segments event st = (Normal, s1)"
          and b: "runCmds emit cs s1 = (out, st')" by blast
      from assms a have "frame st s1" by (auto simp: framedEmitter_def)
      with Cons.IH [OF b] show ?thesis by (blast intro: frame_trans)
    qed
  next
    case (Throw e)
    with Cons.prems show ?thesis by (simp add: frame_refl)
  qed
qed

lemma callListeners_frame:
  assumes "framedEmitter emit"
  shows "callListeners emit ty segments event ls st = (out, st') \<Longrightarrow> frame st st'"
proof (induction ls arbitrary: st)
  case Nil
  then show ?case by (simp add: frame_refl)
next
  case (Cons l ls)
  let ?sa = "st\<lparr>trace := trace st @ [ListenerCall ty (patternSegments l) segments event]\<rparr>"
  have f0: "frame st ?sa" by (rule frame_call)
  from Cons.prems have "andThen (runCmds emit (fn l (trace st) segments event) ?sa)
      (callListeners emit ty segments event ls) = (out, st')" by simp
  from andThen_cases [OF this] show ?case
  proof
    assume "\<exists>e. runCmds emit (fn l (trace st) segments event) ?sa = (Thrown e, st') \<and> out = Thrown e"
    with runCmds_frame [OF assms] f0 show ?thesis by (blast intro: frame_trans)
  next
    assume "\<exists>s1. runCmds emit (fn l (trace st) segments event) ?sa = (Normal, s1) \<and>
        callListeners emit ty segments event ls s1 = (out, st')"
    then obtain s1 where a: "runCmds emit (fn l (trace st) segments event) ?sa = (Normal, s1)"
        and b: "callListeners emit ty segments event ls s1 = (out, st')" by blast
    from runCmds_frame [OF assms a] f0 Cons.IH [OF b] show ?thesis by (blast intro: frame_trans)
  qed
qed

lemma callMutationListeners_frame:
  assumes "framedEmitter emit" and "callMutationListeners E emit ty segments event st = (out, st')"
  shows "frame st st'"
  using assms(2) callListeners_frame [OF assms(1)]
  by (auto simp: callMutationListeners_def frame_refl split: option.splits)

lemma forQueue_frame:
  assumes "framedEmitter emit"
  shows "forQueue E emit queue st = (out, st') \<Longrightarrow> frame st st'"
proof (induction queue arbitrary: st)
  case Nil
  then show ?case by (simp add: frame_refl)
next
  case (Cons item queue)
  obtain segments event where item: "item = (segments, event)" by (cases item)
  note cf = callMutationListeners_frame [OF assms]
  from Cons.prems item have "andThen (callMutationListeners E emit (etype event) segments event st)
      (\<lambda>st. andThen (callMutationListeners E emit ''all'' segments event st)
         (\<lambda>st. forQueue E emit queue st)) = (out, st')" by simp
  from andThen_cases [OF this] show ?case
  proof
    assume "\<exists>e. callMutationListeners E emit (etype event) segments event st = (Thrown e, st') \<and>
        out = Thrown e"
    with cf show ?thesis by blast
  next
    assume "\<exists>s1. callMutationListeners E emit (etype event) segments event st = (Normal, s1) \<and>
        andThen (callMutationListeners E emit ''all'' segments event s1)
          (\<lambda>st. forQueue E emit queue st) = (out, st')"
    then obtain s1 where a: "callMutationListeners E emit (etype event) segments event st = (Normal, s1)"
        and b: "andThen (callMutationListeners E emit ''all'' segments event s1)
          (\<lambda>st. forQueue E emit queue st) = (out, st')" by blast
    from cf a have f1: "frame st s1" by blast
    from andThen_cases [OF b] show ?thesis
    proof
      assume "\<exists>e. callMutationListeners E emit ''all'' segments event s1 = (Thrown e, st') \<and>
          out = Thrown e"
      with cf f1 show ?thesis by (blast intro: frame_trans)
    next
      assume "\<exists>s2. callMutationListeners E emit ''all'' segments event s1 = (Normal, s2) \<and>
          forQueue E emit queue s2 = (out, st')"
      then obtain s2 where c: "callMutationListeners E emit ''all'' segments event s1 = (Normal, s2)"
          and d: "forQueue E emit queue s2 = (out, st')" by blast
      from cf c have "frame s1 s2" by blast
      with f1 Cons.IH [OF d] show ?thesis by (blast intro: frame_trans)
    qed
  qed
qed

lemma drainQueue_frame:
  "framedEmitter emit \<Longrightarrow> drainQueue E emit limit st = (out, st') \<Longrightarrow> frame st st'"
proof (induction E emit limit st rule: drainQueue.induct)
  case (1 E emit limit st)
  show ?case
  proof (cases "mutationEventQueue st")
    case None
    with "1.prems" show ?thesis by (simp add: drainQueue.simps frame_refl)
  next
    case (Some queue)
    show ?thesis
    proof (cases "limit - 1 < 0")
      case True
      with Some "1.prems" show ?thesis by (simp add: drainQueue.simps frame_refl)
    next
      case False
      let ?s0 = "st\<lparr>mutationEventQueue := None\<rparr>"
      have f0: "frame st ?s0" by (rule frame_queue)
      from Some False "1.prems"(2) have "andThen (forQueue E emit queue ?s0)
          (drainQueue E emit (limit - 1)) = (out, st')" by (simp add: drainQueue.simps)
      from andThen_cases [OF this] show ?thesis
      proof
        assume "\<exists>e. forQueue E emit queue ?s0 = (Thrown e, st') \<and> out = Thrown e"
        with forQueue_frame [OF "1.prems"(1)] f0 show ?thesis by (blast intro: frame_trans)
      next
        assume "\<exists>s1. forQueue E emit queue ?s0 = (Normal, s1) \<and>
            drainQueue E emit (limit - 1) s1 = (out, st')"
        then obtain s1 where a: "forQueue E emit queue ?s0 = (Normal, s1)"
            and b: "drainQueue E emit (limit - 1) s1 = (out, st')" by blast
        from forQueue_frame [OF "1.prems"(1) a] f0 "1.IH" [OF Some False "1.prems"(1) b]
        show ?thesis by (blast intro: frame_trans)
      qed
    qed
  qed
qed

text \<open>The steps of an emission after its immediate listeners.\<close>

lemma emitMutationBody_rest_frame:
  assumes fe: "framedEmitter emit"
    and rest: "(if emittingMutation st1 then (Normal, enqueue segments event st1)
          else andThen (callMutationListeners E emit (etype event) segments event
                     (st1\<lparr>emittingMutation := True\<rparr>)) (\<lambda>st.
               andThen (callMutationListeners E emit ''all'' segments event st) (\<lambda>st.
               andThen (drainQueue E emit 1000 st) (\<lambda>st.
               (Normal, st\<lparr>emittingMutation := False\<rparr>))))) = (out, st')"
  shows "frame st1 st'"
proof (cases "emittingMutation st1")
  case True
  with rest show ?thesis by (auto simp: frame_enqueue)
next
  case False
  note cf = callMutationListeners_frame [OF fe]
  let ?s1 = "st1\<lparr>emittingMutation := True\<rparr>"
  have f0: "frame st1 ?s1" by (rule frame_flag)
  from rest False have "andThen (callMutationListeners E emit (etype event) segments event ?s1) (\<lambda>st.
               andThen (callMutationListeners E emit ''all'' segments event st) (\<lambda>st.
               andThen (drainQueue E emit 1000 st) (\<lambda>st.
               (Normal, st\<lparr>emittingMutation := False\<rparr>)))) = (out, st')" by simp
  from andThen_cases [OF this] show ?thesis
  proof
    assume "\<exists>e. callMutationListeners E emit (etype event) segments event ?s1 = (Thrown e, st') \<and>
        out = Thrown e"
    with cf f0 show ?thesis by (blast intro: frame_trans)
  next
    assume "\<exists>s2. callMutationListeners E emit (etype event) segments event ?s1 = (Normal, s2) \<and>
        andThen (callMutationListeners E emit ''all'' segments event s2) (\<lambda>st.
          andThen (drainQueue E emit 1000 st) (\<lambda>st.
          (Normal, st\<lparr>emittingMutation := False\<rparr>))) = (out, st')"
    then obtain s2 where a: "callMutationListeners E emit (etype event) segments event ?s1 = (Normal, s2)"
        and b: "andThen (callMutationListeners E emit ''all'' segments event s2) (\<lambda>st.
          andThen (drainQueue E emit 1000 st) (\<lambda>st.
          (Normal, st\<lparr>emittingMutation := False\<rparr>))) = (out, st')" by blast
    from cf a f0 have f2: "frame st1 s2" by (blast intro: frame_trans)
    from andThen_cases [OF b] show ?thesis
    proof
      assume "\<exists>e. callMutationListeners E emit ''all'' segments event s2 = (Thrown e, st') \<and>
          out = Thrown e"
      with cf f2 show ?thesis by (blast intro: frame_trans)
    next
      assume "\<exists>s3. callMutationListeners E emit ''all'' segments event s2 = (Normal, s3) \<and>
          andThen (drainQueue E emit 1000 s3) (\<lambda>st.
            (Normal, st\<lparr>emittingMutation := False\<rparr>)) = (out, st')"
      then obtain s3 where c: "callMutationListeners E emit ''all'' segments event s2 = (Normal, s3)"
          and d: "andThen (drainQueue E emit 1000 s3) (\<lambda>st.
            (Normal, st\<lparr>emittingMutation := False\<rparr>)) = (out, st')" by blast
      from cf c f2 have f3: "frame st1 s3" by (blast intro: frame_trans)
      from andThen_cases [OF d] show ?thesis
      proof
        assume "\<exists>e. drainQueue E emit 1000 s3 = (Thrown e, st') \<and> out = Thrown e"
        with drainQueue_frame [OF fe] f3 show ?thesis by (blast intro: frame_trans)
      next
        assume "\<exists>s4. drainQueue E emit 1000 s3 = (Normal, s4) \<and>
            (Normal, s4\<lparr>emittingMutation := False\<rparr>) = (out, st')"
        then obtain s4 where e: "drainQueue E emit 1000 s3 = (Normal, s4)"
            and g: "st' = s4\<lparr>emittingMutation := False\<rparr>" by auto
        from drainQueue_frame [OF fe e] f3 have "frame st1 s4" by (blast intro: frame_trans)
        moreover have "frame s4 st'" unfolding g by (rule frame_flag)
        ultimately show ?thesis by (rule frame_trans)
      qed
    qed
  qed
qed

lemma emitMutationBody_framed:
  assumes fe: "framedEmitter emit"
  shows "framedEmitter (emitMutationBody E emit)"
  unfolding framedEmitter_def
proof (intro allI impI)
  fix sc segments event st out st'
  assume run: "emitMutationBody E emit sc segments event st = (out, st')"
  show "frame st st'"
  proof (cases "silent sc")
    case True
    with run show ?thesis by (simp add: emitMutationBody_def frame_refl)
  next
    case False
    with run have "andThen (callMutationListeners E emit (immediateType event) segments event st)
        (\<lambda>st1. if emittingMutation st1 then (Normal, enqueue segments event st1)
          else andThen (callMutationListeners E emit (etype event) segments event
                     (st1\<lparr>emittingMutation := True\<rparr>)) (\<lambda>st.
               andThen (callMutationListeners E emit ''all'' segments event st) (\<lambda>st.
               andThen (drainQueue E emit 1000 st) (\<lambda>st.
               (Normal, st\<lparr>emittingMutation := False\<rparr>))))) = (out, st')"
      by (simp add: emitMutationBody_def)
    from andThen_cases [OF this] show ?thesis
    proof
      assume "\<exists>e. callMutationListeners E emit (immediateType event) segments event st
          = (Thrown e, st') \<and> out = Thrown e"
      with callMutationListeners_frame [OF fe] show ?thesis by blast
    next
      assume "\<exists>s1. callMutationListeners E emit (immediateType event) segments event st = (Normal, s1) \<and>
          (if emittingMutation s1 then (Normal, enqueue segments event s1)
          else andThen (callMutationListeners E emit (etype event) segments event
                     (s1\<lparr>emittingMutation := True\<rparr>)) (\<lambda>st.
               andThen (callMutationListeners E emit ''all'' segments event st) (\<lambda>st.
               andThen (drainQueue E emit 1000 st) (\<lambda>st.
               (Normal, st\<lparr>emittingMutation := False\<rparr>))))) = (out, st')"
      then obtain s1 where
          a: "callMutationListeners E emit (immediateType event) segments event st = (Normal, s1)"
          and b: "(if emittingMutation s1 then (Normal, enqueue segments event s1)
          else andThen (callMutationListeners E emit (etype event) segments event
                     (s1\<lparr>emittingMutation := True\<rparr>)) (\<lambda>st.
               andThen (callMutationListeners E emit ''all'' segments event st) (\<lambda>st.
               andThen (drainQueue E emit 1000 st) (\<lambda>st.
               (Normal, st\<lparr>emittingMutation := False\<rparr>))))) = (out, st')" by blast
      from callMutationListeners_frame [OF fe a] emitMutationBody_rest_frame [OF fe b]
      show ?thesis by (rule frame_trans)
    qed
  qed
qed

lemma emitMutation_framed: "framedEmitter (emitMutation E n)"
proof (induction n)
  case 0
  show ?case by (simp add: framedEmitter_def frame_refl)
next
  case (Suc n)
  then show ?case by (simp add: emitMutationBody_framed)
qed




text \<open>
  Claim C1. Take an emission on a non-silent scope that starts with no emission in flight,
  once its immediate listeners have returned. From then on the dispatch calls in the
  history are an initial part of: the delivery of the triggering event (its own-type
  listeners, then the \<open>all\<close>-type listeners) followed by the deliveries of the events
  pushed on the queue, whole and in the order of the pushes; they are all of it when the
  emission ends normally. A pass over a batch delivers the events of the batch in order
  and leaves as the queue exactly what was pushed during the pass; the drain loop takes
  the whole queue as the batch of a pass and clears it.
\<close>

theorem emit_delivery_order:
  assumes "\<not> silent this" and "\<not> emittingMutation st" and "mutationEventQueue st = None"
    and "callMutationListeners E (emitMutation E n) (immediateType event) segments event st
           = (Normal, st1)"
    and "emitMutation E (Suc n) this segments event st = (out, st')"
  shows "prefix (trace st1) (trace st') \<and>
     prefix (dispatched (since st1 st'))
       (concat (map (delivery E (mutationListeners st))
          ((segments, event) # enqueuedIn (since st1 st')))) \<and>
     (out = Normal \<longrightarrow>
        dispatched (since st1 st') =
          concat (map (delivery E (mutationListeners st))
            ((segments, event) # enqueuedIn (since st1 st')))) \<and>
     (\<forall>queue s res s'. emittingMutation s \<and> mutationEventQueue s = None \<and>
        forQueue E (emitMutation E n) queue s = (res, s') \<longrightarrow>
        prefix (dispatched (since s s')) (concat (map (delivery E (mutationListeners s)) queue)) \<and>
        (res = Normal \<longrightarrow>
           dispatched (since s s') = concat (map (delivery E (mutationListeners s)) queue)) \<and>
        mutationEventQueue s' =
          (if enqueuedIn (since s s') = [] then None else Some (enqueuedIn (since s s')))) \<and>
     (\<forall>queue s limit. mutationEventQueue s = Some queue \<and> 0 < limit \<longrightarrow>
        drainQueue E (emitMutation E n) limit s =
          andThen (forQueue E (emitMutation E n) queue (s\<lparr>mutationEventQueue := None\<rparr>))
            (drainQueue E (emitMutation E n) (limit - 1)))"
proof -
  have good: "goodEmitter (emitMutation E n)" by (rule emitMutation_good)
  from assms(5) have run: "emitMutationBody E (emitMutation E n) this segments event st = (out, st')"
    by simp
  from emitMutationBody_top [OF good assms(1,2,3,4) run]
  obtain new where b: "trace st' = trace st1 @ new"
      and c: "prefix (dispatched new)
        (concat (map (delivery E (mutationListeners st)) ((segments, event) # enqueuedIn new)))"
      and d: "out = Normal \<longrightarrow> dispatched new =
        concat (map (delivery E (mutationListeners st)) ((segments, event) # enqueuedIn new))"
    by auto
  have p1: "prefix (trace st1) (trace st')" using b by (simp add: prefix_def)
  have p2: "prefix (dispatched (since st1 st'))
       (concat (map (delivery E (mutationListeners st))
          ((segments, event) # enqueuedIn (since st1 st'))))"
    using c by (simp only: since_append [OF b])
  have p2': "out = Normal \<longrightarrow> dispatched (since st1 st') =
       concat (map (delivery E (mutationListeners st)) ((segments, event) # enqueuedIn (since st1 st')))"
    using d by (simp only: since_append [OF b])
  have p3: "prefix (dispatched (since s s')) (concat (map (delivery E (mutationListeners s)) queue)) \<and>
        (res = Normal \<longrightarrow>
           dispatched (since s s') = concat (map (delivery E (mutationListeners s)) queue)) \<and>
        mutationEventQueue s' =
          (if enqueuedIn (since s s') = [] then None else Some (enqueuedIn (since s s')))"
    if h: "emittingMutation s \<and> mutationEventQueue s = None \<and>
        forQueue E (emitMutation E n) queue s = (res, s')" for queue s res s'
  proof -
    from h forQueue_inflight [OF good] have
      "inflightUpTo res (concat (map (delivery E (mutationListeners s)) queue)) s s'" by blast
    with h obtain ds nw where nw: "trace s' = trace s @ nw" "dispatched nw = ds"
        "prefix ds (concat (map (delivery E (mutationListeners s)) queue))"
        "res = Normal \<longrightarrow> ds = concat (map (delivery E (mutationListeners s)) queue)"
        "pending s' = enqueuedIn nw" "mutationEventQueue s' \<noteq> Some []"
      by (auto simp: inflightUpTo_def inflight_def pending_def)
    from nw(5,6) have "mutationEventQueue s' = (if enqueuedIn nw = [] then None else Some (enqueuedIn nw))"
      by (auto simp: pending_def split: option.splits)
    with nw(2,3,4) show ?thesis unfolding since_append [OF nw(1)] by simp
  qed
  have p4: "drainQueue E (emitMutation E n) limit s =
          andThen (forQueue E (emitMutation E n) queue (s\<lparr>mutationEventQueue := None\<rparr>))
            (drainQueue E (emitMutation E n) (limit - 1))"
    if "mutationEventQueue s = Some queue \<and> 0 < limit" for queue s limit
    using that by (subst drainQueue.simps) simp
  from p1 p2 p2' p3 p4 show ?thesis by blast
qed

theorem emit_delivery_order_witness:
  "fst (emitMutation E0 (Suc 1) sc0 [''a''] ev0 (st0 (trees0 3))) = Normal \<and>
   dispatched
     (since (snd (callMutationListeners E0 (emitMutation E0 1) (immediateType ev0) [''a''] ev0
                    (st0 (trees0 3))))
        (snd (emitMutation E0 (Suc 1) sc0 [''a''] ev0 (st0 (trees0 3))))) =
     concat (map (delivery E0 (mutationListeners (st0 (trees0 3))))
       [([''a''], ev0), ([''a''], ev0), ([''a''], ev0), ([''a''], ev0)])"
proof -
  let ?st = "st0 (trees0 3)"
  let ?r = "emitMutation E0 (Suc 1) sc0 [''a''] ev0 ?st"
  let ?i = "callMutationListeners E0 (emitMutation E0 1) (immediateType ev0) [''a''] ev0 ?st"
  have n: "fst ?r = Normal" by code_simp
  have h1: "\<not> silent sc0" by (simp add: sc0_def)
  have h2: "\<not> emittingMutation ?st" by (simp add: st0_def)
  have h3: "mutationEventQueue ?st = None" by (simp add: st0_def)
  have "fst ?i = Normal" by code_simp
  then have h4: "?i = (Normal, snd ?i)" by (rule collapse_Normal)
  have h5: "?r = (Normal, snd ?r)" using n by (rule collapse_Normal)
  have e: "enqueuedIn (since (snd ?i) (snd ?r)) = [([''a''], ev0), ([''a''], ev0), ([''a''], ev0)]"
    by code_simp
  from emit_delivery_order [OF h1 h2 h3 h4 h5]
  have "dispatched (since (snd ?i) (snd ?r)) =
      concat (map (delivery E0 (mutationListeners ?st))
        (([''a''], ev0) # enqueuedIn (since (snd ?i) (snd ?r))))"
    by blast
  then show ?thesis unfolding e using n by (rule conjI [rotated])
qed

subsection \<open>The cap on drain passes\<close>

lemma drainQueue_after_passes_throws:
  "passes E emit k st = (Normal, st') \<Longrightarrow> mutationEventQueue st' = Some queue \<Longrightarrow>
   drainQueue E emit (int k) st = (Thrown (cycleError queue), st')"
proof (induction k arbitrary: st)
  case 0
  then show ?case by (simp add: drainQueue.simps)
next
  case (Suc k)
  show ?case
  proof (cases "mutationEventQueue st")
    case None
    with Suc.prems show ?thesis by simp
  next
    case (Some q0)
    with Suc.prems(1) obtain s1 where
        a: "forQueue E emit q0 (st\<lparr>mutationEventQueue := None\<rparr>) = (Normal, s1)"
        and b: "passes E emit k s1 = (Normal, st')"
      by (auto dest!: andThen_NormalD)
    from Suc.IH [OF b Suc.prems(2)] a Some show ?thesis
      by (subst drainQueue.simps) simp
  qed
qed

lemma drainQueue_after_passes_done:
  "passes E emit k st = (Normal, st') \<Longrightarrow> mutationEventQueue st' = None \<Longrightarrow> k \<le> l \<Longrightarrow>
   drainQueue E emit (int l) st = (Normal, st')"
proof (induction k arbitrary: st l)
  case 0
  then show ?case by (simp add: drainQueue.simps)
next
  case (Suc k)
  show ?case
  proof (cases "mutationEventQueue st")
    case None
    with Suc.prems show ?thesis by (simp add: drainQueue.simps)
  next
    case (Some q0)
    with Suc.prems(1) obtain s1 where
        a: "forQueue E emit q0 (st\<lparr>mutationEventQueue := None\<rparr>) = (Normal, s1)"
        and b: "passes E emit k s1 = (Normal, st')"
      by (auto dest!: andThen_NormalD)
    from Suc.prems(3) obtain l' where l: "l = Suc l'" and kl: "k \<le> l'" by (cases l) auto
    from Suc.IH [OF b Suc.prems(2) kl] a Some show ?thesis
      unfolding l by (subst drainQueue.simps) simp
  qed
qed

lemma echo_pass:
  assumes "emittingMutation s" and "mutationListeners s = treesEcho"
  shows "\<exists>s'. forQueue E0 (emitMutation E0 (Suc 0)) [([''a''], ev0)] (s\<lparr>mutationEventQueue := None\<rparr>)
                = (Normal, s') \<and>
              emittingMutation s' \<and> mutationListeners s' = treesEcho \<and>
              mutationEventQueue s' = Some [([''a''], ev0)]"
  using assms
  by (simp add: callMutationListeners_def E0_def treesEcho_def echo_def ev0_def sc0_def
      emitMutationBody_def enqueue_def)

lemma echo_passes:
  "emittingMutation s \<Longrightarrow> mutationListeners s = treesEcho \<Longrightarrow>
   mutationEventQueue s = Some [([''a''], ev0)] \<Longrightarrow>
   \<exists>s'. passes E0 (emitMutation E0 (Suc 0)) k s = (Normal, s') \<and>
        mutationEventQueue s' = Some [([''a''], ev0)]"
proof (induction k arbitrary: s)
  case 0
  then show ?case by simp
next
  case (Suc k)
  from echo_pass [OF Suc.prems(1,2)] obtain s1 where
      a: "forQueue E0 (emitMutation E0 (Suc 0)) [([''a''], ev0)] (s\<lparr>mutationEventQueue := None\<rparr>)
            = (Normal, s1)"
      and b: "emittingMutation s1" "mutationListeners s1 = treesEcho"
        "mutationEventQueue s1 = Some [([''a''], ev0)]"
    by blast
  from Suc.IH [OF b] a Suc.prems(3) show ?case by simp
qed

lemma emitMutation_drain:
  assumes ns: "\<not> silent this" and nf: "\<not> emittingMutation st" and q: "mutationEventQueue st = None"
    and imm: "callMutationListeners E (emitMutation E n) (immediateType event) segments event st
                = (Normal, st1)"
    and own: "callMutationListeners E (emitMutation E n) (etype event) segments event
                (st1\<lparr>emittingMutation := True\<rparr>) = (Normal, st2)"
    and al: "callMutationListeners E (emitMutation E n) ''all'' segments event st2 = (Normal, st3)"
  shows "emitMutation E (Suc n) this segments event st =
      andThen (drainQueue E (emitMutation E n) 1000 st3) (\<lambda>st. (Normal, st\<lparr>emittingMutation := False\<rparr>))"
proof -
  have good: "goodEmitter (emitMutation E n)" by (rule emitMutation_good)
  from callMutationListeners_idle [OF good nf q imm] have nf1: "\<not> emittingMutation st1"
    by (simp add: idle_def)
  show ?thesis using ns imm nf1 own al by (simp add: emitMutationBody_def)
qed

lemma count_pass:
  assumes "emittingMutation s" and "mutationListeners s = treesCount k"
  shows "\<exists>s'. forQueue E0 (emitMutation E0 (Suc 0)) [([''a''], ChangeEvent v 0 [])]
                 (s\<lparr>mutationEventQueue := None\<rparr>) = (Normal, s') \<and>
              emittingMutation s' \<and> mutationListeners s' = treesCount k \<and>
              mutationEventQueue s' = (if v < k then Some [([''a''], ChangeEvent (Suc v) 0 [])] else None)"
  using assms
  by (simp add: callMutationListeners_def E0_def treesCount_def countdown_def sc0_def
      emitMutationBody_def enqueue_def)

lemma count_passes:
  "emittingMutation s \<Longrightarrow> mutationListeners s = treesCount k \<Longrightarrow>
   mutationEventQueue s = Some [([''a''], ChangeEvent v 0 [])] \<Longrightarrow> v + j \<le> k \<Longrightarrow>
   \<exists>s'. passes E0 (emitMutation E0 (Suc 0)) j s = (Normal, s') \<and>
        emittingMutation s' \<and> mutationListeners s' = treesCount k \<and>
        mutationEventQueue s' = Some [([''a''], ChangeEvent (v + j) 0 [])]"
proof (induction j arbitrary: s v)
  case 0
  then show ?case by simp
next
  case (Suc j)
  from Suc.prems(4) have vk: "v < k" by simp
  from count_pass [OF Suc.prems(1,2), of v] vk obtain s1 where
      a: "forQueue E0 (emitMutation E0 (Suc 0)) [([''a''], ChangeEvent v 0 [])]
            (s\<lparr>mutationEventQueue := None\<rparr>) = (Normal, s1)"
      and b: "emittingMutation s1" "mutationListeners s1 = treesCount k"
        "mutationEventQueue s1 = Some [([''a''], ChangeEvent (Suc v) 0 [])]"
    by auto
  from Suc.prems(4) have "Suc v + j \<le> k" by simp
  from Suc.IH [OF b this] a Suc.prems(3) show ?case by simp
qed

text \<open>
  Claim C2, as amended. In an emission that starts with no emission in flight, after the
  listeners of the triggering event: when 1000 full passes of the drain loop end normally
  and leave a queue, the emission throws the cycle error, whose message carries that queue;
  when at most 1000 passes end normally and leave no queue, the emission ends normally,
  every pushed event was delivered, in the order of the pushes, and the in-flight flag is
  cleared.
\<close>

theorem emit_cycle_cap:
  assumes ns: "\<not> silent this" and nf: "\<not> emittingMutation st" and q: "mutationEventQueue st = None"
    and imm: "callMutationListeners E (emitMutation E n) (immediateType event) segments event st
                = (Normal, st1)"
    and own: "callMutationListeners E (emitMutation E n) (etype event) segments event
                (st1\<lparr>emittingMutation := True\<rparr>) = (Normal, st2)"
    and al: "callMutationListeners E (emitMutation E n) ''all'' segments event st2 = (Normal, st3)"
    and ps: "passes E (emitMutation E n) k st3 = (Normal, st4)"
  shows "(k = 1000 \<and> mutationEventQueue st4 = Some queue \<longrightarrow>
           emitMutation E (Suc n) this segments event st = (Thrown (cycleError queue), st4) \<and>
           (\<exists>text. cycleError queue = ErrorObj [Str text, QueueJson queue] None)) \<and>
         (k \<le> 1000 \<and> mutationEventQueue st4 = None \<longrightarrow>
           emitMutation E (Suc n) this segments event st = (Normal, st4\<lparr>emittingMutation := False\<rparr>) \<and>
           \<not> emittingMutation (snd (emitMutation E (Suc n) this segments event st)) \<and>
           dispatched (since st1 st4) =
             concat (map (delivery E (mutationListeners st))
               ((segments, event) # enqueuedIn (since st1 st4))))"
proof -
  have good: "goodEmitter (emitMutation E n)" by (rule emitMutation_good)
  from callMutationListeners_idle [OF good nf q imm] have nf1: "\<not> emittingMutation st1"
    by (simp add: idle_def)
  have body: "emitMutation E (Suc n) this segments event st =
      andThen (drainQueue E (emitMutation E n) 1000 st3) (\<lambda>st. (Normal, st\<lparr>emittingMutation := False\<rparr>))"
    using ns imm nf1 own al by (simp add: emitMutationBody_def)
  have a: "emitMutation E (Suc n) this segments event st = (Thrown (cycleError queue), st4) \<and>
           (\<exists>text. cycleError queue = ErrorObj [Str text, QueueJson queue] None)"
    if h: "k = 1000 \<and> mutationEventQueue st4 = Some queue"
  proof -
    from h ps have "drainQueue E (emitMutation E n) (int 1000) st3 = (Thrown (cycleError queue), st4)"
      by (intro drainQueue_after_passes_throws) simp_all
    then show ?thesis unfolding body by (simp add: cycleError_def)
  qed
  have b: "emitMutation E (Suc n) this segments event st = (Normal, st4\<lparr>emittingMutation := False\<rparr>) \<and>
           \<not> emittingMutation (snd (emitMutation E (Suc n) this segments event st)) \<and>
           dispatched (since st1 st4) =
             concat (map (delivery E (mutationListeners st))
               ((segments, event) # enqueuedIn (since st1 st4)))"
    if h: "k \<le> 1000 \<and> mutationEventQueue st4 = None"
  proof -
    from h ps have "drainQueue E (emitMutation E n) (int 1000) st3 = (Normal, st4)"
      by (intro drainQueue_after_passes_done [where k = k]) simp_all
    then have r: "emitMutation E (Suc n) this segments event st = (Normal, st4\<lparr>emittingMutation := False\<rparr>)"
      unfolding body by simp
    then have "emitMutationBody E (emitMutation E n) this segments event st =
        (Normal, st4\<lparr>emittingMutation := False\<rparr>)" by simp
    from emitMutationBody_top [OF good ns nf q imm this]
    obtain new where "trace st4 = trace st1 @ new"
        "dispatched new =
           concat (map (delivery E (mutationListeners st)) ((segments, event) # enqueuedIn new))"
      by auto
    then have "dispatched (since st1 st4) =
             concat (map (delivery E (mutationListeners st))
               ((segments, event) # enqueuedIn (since st1 st4)))"
      by (simp add: since_def)
    with r show ?thesis by simp
  qed
  from a b show ?thesis by blast
qed

theorem emit_cycle_cap_witness:
  "(fst (emitMutation E0 (Suc 1) sc0 [''a''] ev0 (st0 (trees0 3))) = Normal \<and>
    \<not> emittingMutation (snd (emitMutation E0 (Suc 1) sc0 [''a''] ev0 (st0 (trees0 3))))) \<and>
   fst (emitMutation E0 (Suc (Suc 0)) sc0 [''a''] ev0 (st0 treesEcho))
     = Thrown (cycleError [([''a''], ev0)])"
proof -
  have bounded: "fst (emitMutation E0 (Suc 1) sc0 [''a''] ev0 (st0 (trees0 3))) = Normal \<and>
      \<not> emittingMutation (snd (emitMutation E0 (Suc 1) sc0 [''a''] ev0 (st0 (trees0 3))))"
  proof -
    let ?st = "st0 (trees0 3)"
    let ?em = "emitMutation E0 1"
    let ?r1 = "callMutationListeners E0 ?em (immediateType ev0) [''a''] ev0 ?st"
    let ?r2 = "callMutationListeners E0 ?em (etype ev0) [''a''] ev0 ((snd ?r1)\<lparr>emittingMutation := True\<rparr>)"
    let ?r3 = "callMutationListeners E0 ?em ''all'' [''a''] ev0 (snd ?r2)"
    let ?r4 = "passes E0 ?em 3 (snd ?r3)"
    have h1: "\<not> silent sc0" by (simp add: sc0_def)
    have h2: "\<not> emittingMutation ?st" by (simp add: st0_def)
    have h3: "mutationEventQueue ?st = None" by (simp add: st0_def)
    have "fst ?r1 = Normal" by code_simp
    then have h4: "?r1 = (Normal, snd ?r1)" by (rule collapse_Normal)
    have "fst ?r2 = Normal" by code_simp
    then have h5: "?r2 = (Normal, snd ?r2)" by (rule collapse_Normal)
    have "fst ?r3 = Normal" by code_simp
    then have h6: "?r3 = (Normal, snd ?r3)" by (rule collapse_Normal)
    have "fst ?r4 = Normal" by code_simp
    then have h7: "?r4 = (Normal, snd ?r4)" by (rule collapse_Normal)
    have h8: "(3::nat) \<le> 1000 \<and> mutationEventQueue (snd ?r4) = None" by code_simp
    from emit_cycle_cap [OF h1 h2 h3 h4 h5 h6 h7, of "[]"] h8
    show ?thesis by simp
  qed
  have unbounded: "emitMutation E0 (Suc (Suc 0)) sc0 [''a''] ev0 (st0 treesEcho)
     = (Thrown (cycleError [([''a''], ev0)]),
        snd (emitMutation E0 (Suc (Suc 0)) sc0 [''a''] ev0 (st0 treesEcho)))"
  proof -
    let ?st = "st0 treesEcho"
    let ?em = "emitMutation E0 (Suc 0)"
    let ?r1 = "callMutationListeners E0 ?em (immediateType ev0) [''a''] ev0 ?st"
    let ?r2 = "callMutationListeners E0 ?em (etype ev0) [''a''] ev0 ((snd ?r1)\<lparr>emittingMutation := True\<rparr>)"
    let ?r3 = "callMutationListeners E0 ?em ''all'' [''a''] ev0 (snd ?r2)"
    have h1: "\<not> silent sc0" by (simp add: sc0_def)
    have h2: "\<not> emittingMutation ?st" by (simp add: st0_def)
    have h3: "mutationEventQueue ?st = None" by (simp add: st0_def)
    have "fst ?r1 = Normal" by code_simp
    then have h4: "?r1 = (Normal, snd ?r1)" by (rule collapse_Normal)
    have "fst ?r2 = Normal" by code_simp
    then have h5: "?r2 = (Normal, snd ?r2)" by (rule collapse_Normal)
    have "fst ?r3 = Normal" by code_simp
    then have h6: "?r3 = (Normal, snd ?r3)" by (rule collapse_Normal)
    have s3: "emittingMutation (snd ?r3)" "mutationEventQueue (snd ?r3) = Some [([''a''], ev0)]"
      by code_simp+
    have t3: "mutationListeners (snd ?r3) = treesEcho"
      by (simp add: callMutationListeners_def E0_def treesEcho_def echo_def ev0_def sc0_def
          emitMutationBody_def enqueue_def st0_def)
    from echo_passes [OF s3(1) t3 s3(2), of 1000] obtain s4 where
        h7: "passes E0 ?em 1000 (snd ?r3) = (Normal, s4)"
        and h8: "mutationEventQueue s4 = Some [([''a''], ev0)]"
      by blast
    from emit_cycle_cap [OF h1 h2 h3 h4 h5 h6 h7, of "[([''a''], ev0)]"] h8
    show ?thesis by simp
  qed
  from unbounded have "fst (emitMutation E0 (Suc (Suc 0)) sc0 [''a''] ev0 (st0 treesEcho))
     = Thrown (cycleError [([''a''], ev0)])"
    by (metis fst_conv)
  with bounded show ?thesis by (rule conjI)
qed

text \<open>
  The claim as stated fails for a bounded chain that is longer than the cap: with the
  listener \<open>countdown 1001\<close> the chain ends by itself in the pass 1001 (1001 passes without
  the counter end normally with no queue), and the emission throws the cycle error.
\<close>

theorem bounded_chain_counterexample:
  "fst (emitMutation E0 (Suc (Suc 0)) sc0 [''a''] (ChangeEvent 0 0 []) (st0 (treesCount 1001)))
     = Thrown (cycleError [([''a''], ChangeEvent 1001 0 [])]) \<and>
   fst (passes E0 (emitMutation E0 (Suc 0)) 1001
     (snd (callMutationListeners E0 (emitMutation E0 (Suc 0)) ''all'' [''a''] (ChangeEvent 0 0 [])
       (snd (callMutationListeners E0 (emitMutation E0 (Suc 0)) ''change'' [''a''] (ChangeEvent 0 0 [])
          ((st0 (treesCount 1001))\<lparr>emittingMutation := True\<rparr>)))))) = Normal \<and>
   mutationEventQueue (snd (passes E0 (emitMutation E0 (Suc 0)) 1001
     (snd (callMutationListeners E0 (emitMutation E0 (Suc 0)) ''all'' [''a''] (ChangeEvent 0 0 [])
       (snd (callMutationListeners E0 (emitMutation E0 (Suc 0)) ''change'' [''a''] (ChangeEvent 0 0 [])
          ((st0 (treesCount 1001))\<lparr>emittingMutation := True\<rparr>))))))) = None"
proof -
  let ?ev = "ChangeEvent 0 0 [] :: nat event"
  let ?st = "st0 (treesCount 1001)"
  let ?em = "emitMutation E0 (Suc 0)"
  let ?s3 = "snd (callMutationListeners E0 ?em ''all'' [''a''] ?ev
       (snd (callMutationListeners E0 ?em ''change'' [''a''] ?ev (?st\<lparr>emittingMutation := True\<rparr>))))"
  have h1: "\<not> silent sc0" by (simp add: sc0_def)
  have h2: "\<not> emittingMutation ?st" by (simp add: st0_def)
  have h3: "mutationEventQueue ?st = None" by (simp add: st0_def)
  have h4: "callMutationListeners E0 ?em (immediateType ?ev) [''a''] ?ev ?st = (Normal, ?st)"
    by (simp add: callMutationListeners_def st0_def treesCount_def E0_def)
  have o: "fst (callMutationListeners E0 ?em ''change'' [''a''] ?ev (?st\<lparr>emittingMutation := True\<rparr>))
      = Normal"
    by (simp add: callMutationListeners_def st0_def treesCount_def E0_def countdown_def sc0_def
        emitMutationBody_def enqueue_def)
  then have h5: "callMutationListeners E0 ?em (etype ?ev) [''a''] ?ev (?st\<lparr>emittingMutation := True\<rparr>)
      = (Normal, snd (callMutationListeners E0 ?em ''change'' [''a''] ?ev (?st\<lparr>emittingMutation := True\<rparr>)))"
    by (simp add: collapse_Normal)
  have s3: "fst (callMutationListeners E0 ?em ''all'' [''a''] ?ev
       (snd (callMutationListeners E0 ?em ''change'' [''a''] ?ev (?st\<lparr>emittingMutation := True\<rparr>))))
      = Normal"
    "emittingMutation ?s3" "mutationListeners ?s3 = treesCount 1001"
    "mutationEventQueue ?s3 = Some [([''a''], ChangeEvent 1 0 [])]"
    by (simp_all add: callMutationListeners_def st0_def treesCount_def E0_def countdown_def sc0_def
        emitMutationBody_def enqueue_def)
  from s3(1) have h6: "callMutationListeners E0 ?em ''all'' [''a''] ?ev
       (snd (callMutationListeners E0 ?em ''change'' [''a''] ?ev (?st\<lparr>emittingMutation := True\<rparr>)))
      = (Normal, ?s3)" by (rule collapse_Normal)
  from count_passes [OF s3(2,3,4), of 1000] obtain s4 where
      p: "passes E0 ?em 1000 ?s3 = (Normal, s4)"
      and q4: "mutationEventQueue s4 = Some [([''a''], ChangeEvent 1001 0 [])]"
      and f4: "emittingMutation s4" "mutationListeners s4 = treesCount 1001"
    by auto
  from drainQueue_after_passes_throws [OF p q4]
  have "drainQueue E0 ?em 1000 ?s3 = (Thrown (cycleError [([''a''], ChangeEvent 1001 0 [])]), s4)"
    by simp
  with emitMutation_drain [OF h1 h2 h3 h4 h5 h6]
  have a: "fst (emitMutation E0 (Suc (Suc 0)) sc0 [''a''] ?ev ?st)
     = Thrown (cycleError [([''a''], ChangeEvent 1001 0 [])])" by simp
  from count_pass [OF f4, of 1001] obtain s5 where
      l: "forQueue E0 ?em [([''a''], ChangeEvent 1001 0 [])] (s4\<lparr>mutationEventQueue := None\<rparr>)
            = (Normal, s5)" and q5: "mutationEventQueue s5 = None"
    by auto
  have "passes E0 ?em (1000 + 1) ?s3 = (Normal, s5)"
  proof -
    have gen: "passes E0 ?em j s = (Normal, s') \<Longrightarrow> passes E0 ?em 1 s' = (Normal, s'') \<Longrightarrow>
        passes E0 ?em (j + 1) s = (Normal, s'')" for j s s' s''
    proof (induction j arbitrary: s)
      case 0
      then show ?case by simp
    next
      case (Suc j)
      show ?case
      proof (cases "mutationEventQueue s")
        case None
        with Suc.prems show ?thesis by simp
      next
        case (Some q0)
        with Suc.prems(1) obtain s1 where
            x: "forQueue E0 ?em q0 (s\<lparr>mutationEventQueue := None\<rparr>) = (Normal, s1)"
            and y: "passes E0 ?em j s1 = (Normal, s')"
          by (auto dest!: andThen_NormalD)
        from Suc.IH [OF y Suc.prems(2)] x Some show ?thesis by simp
      qed
    qed
    have "passes E0 ?em 1 s4 = (Normal, s5)" using l q4 q5 by simp
    with p show ?thesis by (rule gen)
  qed
  then have b: "passes E0 ?em 1001 ?s3 = (Normal, s5)" by simp
  from a b q5 show ?thesis by simp
qed

subsection \<open>Immediate listeners and queuing\<close>



subsection \<open>Exceptions\<close>

text \<open>
  The loops of the emitter have no \<^verbatim>\<open>try\<close>: the exception of a listener body, whatever the
  place of the listener among those found, ends \<^verbatim>\<open>_callMutationListeners\<close> with that
  exception, in the state the body had reached, and no later listener is called. Conversely
  the loop throws only what a listener body threw.
\<close>

lemma andThen_assoc:
  "andThen (andThen r f) g = andThen r (\<lambda>s. andThen (f s) g)"
  by (cases r) (simp add: andThen_def split: outcome.splits)

lemma callListeners_append:
  "callListeners emit ty segments event (pre @ post) st =
     andThen (callListeners emit ty segments event pre st) (callListeners emit ty segments event post)"
proof (induction pre arbitrary: st)
  case Nil
  show ?case by (simp add: andThen_def)
next
  case (Cons l pre)
  have "callListeners emit ty segments event (pre @ post) =
      (\<lambda>s. andThen (callListeners emit ty segments event pre s)
             (callListeners emit ty segments event post))"
    by (rule ext) (rule Cons.IH)
  then show ?case by (simp add: andThen_assoc)
qed

lemma callListeners_exception:
  assumes pre: "callListeners emit ty segments event pre st = (Normal, st1)"
    and body: "runCmds emit (fn l (trace st1) segments event)
        (st1\<lparr>trace := trace st1 @ [ListenerCall ty (patternSegments l) segments event]\<rparr>)
          = (Thrown err, st2)"
  shows "callListeners emit ty segments event (pre @ l # post) st = (Thrown err, st2)"
  by (simp add: callListeners_append pre body andThen_def)

lemma callListeners_Thrown_iff:
  "callListeners emit ty segments event ls st = (Thrown err, st2) \<longleftrightarrow>
     (\<exists>pre l post st1. ls = pre @ l # post \<and>
        callListeners emit ty segments event pre st = (Normal, st1) \<and>
        runCmds emit (fn l (trace st1) segments event)
          (st1\<lparr>trace := trace st1 @ [ListenerCall ty (patternSegments l) segments event]\<rparr>)
            = (Thrown err, st2))"
proof
  assume "callListeners emit ty segments event ls st = (Thrown err, st2)"
  then show "\<exists>pre l post st1. ls = pre @ l # post \<and>
        callListeners emit ty segments event pre st = (Normal, st1) \<and>
        runCmds emit (fn l (trace st1) segments event)
          (st1\<lparr>trace := trace st1 @ [ListenerCall ty (patternSegments l) segments event]\<rparr>)
            = (Thrown err, st2)"
  proof (induction ls arbitrary: st)
    case Nil
    then show ?case by simp
  next
    case (Cons l ls)
    let ?r = "runCmds emit (fn l (trace st) segments event)
          (st\<lparr>trace := trace st @ [ListenerCall ty (patternSegments l) segments event]\<rparr>)"
    obtain out s where r: "?r = (out, s)" by (cases ?r)
    show ?case
    proof (cases out)
      case Normal
      with Cons.prems r have "callListeners emit ty segments event ls s = (Thrown err, st2)"
        by (simp add: andThen_def)
      from Cons.IH [OF this] obtain pre l' post st1 where
          ls: "ls = pre @ l' # post"
          and p: "callListeners emit ty segments event pre s = (Normal, st1)"
          and b: "runCmds emit (fn l' (trace st1) segments event)
            (st1\<lparr>trace := trace st1 @ [ListenerCall ty (patternSegments l') segments event]\<rparr>)
              = (Thrown err, st2)"
        by blast
      from p r Normal have "callListeners emit ty segments event (l # pre) st = (Normal, st1)"
        by (simp add: andThen_def)
      moreover from ls have "l # ls = (l # pre) @ l' # post" by simp
      ultimately show ?thesis using b by blast
    next
      case (Thrown e)
      with Cons.prems r have "e = err" "s = st2" by (simp_all add: andThen_def)
      with r Thrown have "?r = (Thrown err, st2)" by simp
      moreover have "callListeners emit ty segments event [] st = (Normal, st)" by simp
      moreover have "l # ls = [] @ l # ls" by simp
      ultimately show ?thesis by blast
    qed
  qed
next
  assume "\<exists>pre l post st1. ls = pre @ l # post \<and>
        callListeners emit ty segments event pre st = (Normal, st1) \<and>
        runCmds emit (fn l (trace st1) segments event)
          (st1\<lparr>trace := trace st1 @ [ListenerCall ty (patternSegments l) segments event]\<rparr>)
            = (Thrown err, st2)"
  then show "callListeners emit ty segments event ls st = (Thrown err, st2)"
    using callListeners_exception by blast
qed

lemma callMutationListeners_exception:
  assumes "mutationListeners st ty = Some tree"
    and "getWildcardListeners E tree segments = pre @ l # post"
    and "callListeners emit ty segments event pre st = (Normal, st1)"
    and "runCmds emit (fn l (trace st1) segments event)
        (st1\<lparr>trace := trace st1 @ [ListenerCall ty (patternSegments l) segments event]\<rparr>)
          = (Thrown err, st2)"
  shows "callMutationListeners E emit ty segments event st = (Thrown err, st2)"
  using assms by (simp add: callMutationListeners_def callListeners_exception)

text \<open>
  Neither has the drain loop one: an exception of the listeners of a queued event, whatever
  the place of the event in its batch and whatever the pass, ends the loop with that
  exception.
\<close>

lemma forQueue_append:
  "forQueue E emit (q1 @ q2) st = andThen (forQueue E emit q1 st) (forQueue E emit q2)"
proof (induction q1 arbitrary: st)
  case Nil
  show ?case by (simp add: andThen_def)
next
  case (Cons a q1)
  obtain segments event where a: "a = (segments, event)" by (cases a)
  have "forQueue E emit (q1 @ q2) =
      (\<lambda>s. andThen (forQueue E emit q1 s) (forQueue E emit q2))"
    by (rule ext) (rule Cons.IH)
  then show ?case unfolding a by (simp add: andThen_assoc)
qed

lemma forQueue_exception:
  assumes pre: "forQueue E emit qpre st = (Normal, st1)"
    and own: "callMutationListeners E emit (etype event) segments event st1 = (out, st2)"
    and al: "(out = Thrown err \<and> st3 = st2) \<or>
             (out = Normal \<and> callMutationListeners E emit ''all'' segments event st2 = (Thrown err, st3))"
  shows "forQueue E emit (qpre @ (segments, event) # qpost) st = (Thrown err, st3)"
  using al by (auto simp add: forQueue_append pre own andThen_def)

lemma drainQueue_exception:
  assumes "passes E emit k st = (Normal, st1)" and "mutationEventQueue st1 = Some queue"
    and "k < l"
    and "forQueue E emit queue (st1\<lparr>mutationEventQueue := None\<rparr>) = (Thrown err, st2)"
  shows "drainQueue E emit (int l) st = (Thrown err, st2)"
  using assms
proof (induction k arbitrary: st l)
  case 0
  then show ?case by (subst drainQueue.simps) (simp add: andThen_def)
next
  case (Suc k)
  show ?case
  proof (cases "mutationEventQueue st")
    case None
    with Suc.prems show ?thesis by simp
  next
    case (Some q0)
    with Suc.prems(1) obtain s1 where
        a: "forQueue E emit q0 (st\<lparr>mutationEventQueue := None\<rparr>) = (Normal, s1)"
        and b: "passes E emit k s1 = (Normal, st1)"
      by (auto dest!: andThen_NormalD)
    from Suc.prems(3) obtain l' where l: "l = Suc l'" and kl: "k < l'" by (cases l) auto
    from Suc.IH [OF b Suc.prems(2) kl Suc.prems(4)]
    have "drainQueue E emit (int l') s1 = (Thrown err, st2)" .
    with a Some l show ?thesis by (subst drainQueue.simps) (simp add: andThen_def)
  qed
qed

text \<open>
  \<^verbatim>\<open>_emitMutation\<close> has no \<^verbatim>\<open>try\<close> either: an exception that leaves the listeners of the
  immediate type, of the own type or of the type \<open>all\<close>, or the drain loop, is the outcome
  of the emission, hence of the mutation that called it; the in-flight flag is then left as
  it was at the throw.
\<close>

lemma emitMutation_exception:
  assumes "\<not> silent this"
  shows "callMutationListeners E (emitMutation E n) (immediateType event) segments event st
           = (Thrown err, st1) \<Longrightarrow>
         emitMutation E (Suc n) this segments event st = (Thrown err, st1)"
    and "callMutationListeners E (emitMutation E n) (immediateType event) segments event st
           = (Normal, st1) \<Longrightarrow> \<not> emittingMutation st1 \<Longrightarrow>
         callMutationListeners E (emitMutation E n) (etype event) segments event
           (st1\<lparr>emittingMutation := True\<rparr>) = (Thrown err, st2) \<Longrightarrow>
         emitMutation E (Suc n) this segments event st = (Thrown err, st2)"
    and "callMutationListeners E (emitMutation E n) (immediateType event) segments event st
           = (Normal, st1) \<Longrightarrow> \<not> emittingMutation st1 \<Longrightarrow>
         callMutationListeners E (emitMutation E n) (etype event) segments event
           (st1\<lparr>emittingMutation := True\<rparr>) = (Normal, st2) \<Longrightarrow>
         callMutationListeners E (emitMutation E n) ''all'' segments event st2 = (Thrown err, st3) \<Longrightarrow>
         emitMutation E (Suc n) this segments event st = (Thrown err, st3)"
    and "callMutationListeners E (emitMutation E n) (immediateType event) segments event st
           = (Normal, st1) \<Longrightarrow> \<not> emittingMutation st1 \<Longrightarrow>
         callMutationListeners E (emitMutation E n) (etype event) segments event
           (st1\<lparr>emittingMutation := True\<rparr>) = (Normal, st2) \<Longrightarrow>
         callMutationListeners E (emitMutation E n) ''all'' segments event st2 = (Normal, st3) \<Longrightarrow>
         drainQueue E (emitMutation E n) 1000 st3 = (Thrown err, st4) \<Longrightarrow>
         emitMutation E (Suc n) this segments event st = (Thrown err, st4)"
  using assms by (simp_all add: emitMutationBody_def)

text \<open>
  An emission to the listeners \<open>watcher w\<close>, \<open>thrower\<close>, \<open>watcher x\<close>, in this order: the first
  two are called, the exception of the second is the outcome, and the third is not called.
\<close>

lemma emitMutation_late_thrower:
  "emitMutation E0 (Suc 1) sc0 [''a''] ev0 (st0 treesLate)
     = (Thrown (StringVal ''boom''),
        (st0 treesLate)\<lparr>emittingMutation := True,
           trace := [ListenerCall ''change'' [''w''] [''a''] ev0,
                     ListenerCall ''change'' [''t''] [''a''] ev0]\<rparr>)"
proof -
  let ?st = "st0 treesLate"
  have h1: "\<not> silent sc0" by (simp add: sc0_def)
  have i: "callMutationListeners E0 (emitMutation E0 1) (immediateType ev0) [''a''] ev0 ?st = (Normal, ?st)"
    by (simp add: callMutationListeners_def st0_def treesLate_def E0_def ev0_def)
  have f: "\<not> emittingMutation ?st" by (simp add: st0_def)
  have t: "mutationListeners (?st\<lparr>emittingMutation := True\<rparr>) (etype ev0)
      = Some [watcher ''w'', thrower, watcher ''x'']"
    by (simp add: st0_def treesLate_def ev0_def)
  have g: "getWildcardListeners E0 [watcher ''w'', thrower, watcher ''x''] [''a'']
      = [watcher ''w''] @ thrower # [watcher ''x'']"
    by (simp add: E0_def)
  have p: "callListeners (emitMutation E0 1) (etype ev0) [''a''] ev0 [watcher ''w'']
      (?st\<lparr>emittingMutation := True\<rparr>)
      = (Normal, ?st\<lparr>emittingMutation := True,
           trace := [ListenerCall ''change'' [''w''] [''a''] ev0]\<rparr>)"
    by (simp add: st0_def watcher_def ev0_def andThen_def)
  have b: "runCmds (emitMutation E0 1)
      (fn thrower (trace (?st\<lparr>emittingMutation := True,
           trace := [ListenerCall ''change'' [''w''] [''a''] ev0]\<rparr>)) [''a''] ev0)
      (?st\<lparr>emittingMutation := True, trace := [ListenerCall ''change'' [''w''] [''a''] ev0]\<rparr>
        \<lparr>trace := trace (?st\<lparr>emittingMutation := True,
             trace := [ListenerCall ''change'' [''w''] [''a''] ev0]\<rparr>) @
           [ListenerCall (etype ev0) (patternSegments thrower) [''a''] ev0]\<rparr>)
      = (Thrown (StringVal ''boom''),
         ?st\<lparr>emittingMutation := True,
           trace := [ListenerCall ''change'' [''w''] [''a''] ev0,
                     ListenerCall ''change'' [''t''] [''a''] ev0]\<rparr>)"
    by (simp add: thrower_def ev0_def)
  from callMutationListeners_exception [OF t g p b]
  have o: "callMutationListeners E0 (emitMutation E0 1) (etype ev0) [''a''] ev0
      (?st\<lparr>emittingMutation := True\<rparr>)
      = (Thrown (StringVal ''boom''),
         ?st\<lparr>emittingMutation := True,
           trace := [ListenerCall ''change'' [''w''] [''a''] ev0,
                     ListenerCall ''change'' [''t''] [''a''] ev0]\<rparr>)" .
  from emitMutation_exception(2) [OF h1 i f o] show ?thesis .
qed

text \<open>
  The wrapper of \<^verbatim>\<open>wrapCallback\<close> catches what the completion callback throws and hands it
  to \<^verbatim>\<open>_emitError\<close>. For every thrown value other than \<^verbatim>\<open>null\<close> and \<^verbatim>\<open>undefined\<close> that builds
  an error object and emits it as an \<open>error\<close> event: the outcome of the wrapper is that of the
  platform's emitter, not the exception of the callback.
\<close>

lemma errorForEvent_Inr:
  "err \<noteq> NullVal \<Longrightarrow> err \<noteq> UndefinedVal \<Longrightarrow> \<exists>e. errorForEvent err context = Inr e"
  by (cases err) (simp_all add: errorForEvent_def Let_def)

lemma wrapCallback_catches:
  assumes "runCmds emit (cb (trace s) args) (s\<lparr>trace := trace s @ [CallbackCall args]\<rparr>)
      = (Thrown err, s1)"
    and "err \<noteq> NullVal" and "err \<noteq> UndefinedVal"
  shows "\<exists>e. errorForEvent err None = Inr e \<and>
    callWrapped E emit (wrapCallback (Some cb)) args s = emitEvent E ''error'' e s1"
proof -
  from errorForEvent_Inr [OF assms(2,3)] obtain e where "errorForEvent err None = Inr e" ..
  with assms(1) show ?thesis by (simp add: wrapCallback_def emitError_def)
qed

lemma wrapCallback_catches_string:
  "callWrapped E0 (emitMutation E0 1) (wrapCallback (Some cbThrow)) NoArgs (st0 treesThrow)
     = (Normal, (st0 treesThrow)\<lparr>trace := [CallbackCall NoArgs,
          CallbackCall (ErrArg (ErrorObj [Str ''boom''] None))]\<rparr>)"
  by (simp add: wrapCallback_def emitError_def errorForEvent_def cbThrow_def E0_def st0_def)

text \<open>
  Claim C6. The wrapper of \<^verbatim>\<open>wrapCallback\<close> does not convert every exception of the completion
  callback into an \<open>error\<close> event. When the callback throws \<^verbatim>\<open>null\<close> or \<^verbatim>\<open>undefined\<close>, the
  \<^verbatim>\<open>catch\<close> calls \<^verbatim>\<open>_emitError\<close> with that value, the read of \<^verbatim>\<open>err.message\<close> at events.js:69
  throws a \<^verbatim>\<open>TypeError\<close>, and this exception leaves the wrapper: the state is the one the
  callback had reached, no event is emitted, and the platform's emitter is not called.
  \<^verbatim>\<open>defaultCallback\<close> tests its argument first and does nothing for these two values.
\<close>

theorem wrapCallback_null_propagates:
  assumes "runCmds emit (cb (trace s) args) (s\<lparr>trace := trace s @ [CallbackCall args]\<rparr>)
      = (Thrown err, s1)"
    and "err = NullVal \<or> err = UndefinedVal"
  shows "callWrapped E emit (wrapCallback (Some cb)) args s =
           (Thrown (readError (if err = NullVal then ''null'' else ''undefined'')), s1) \<and>
         callWrapped E emit (wrapCallback None) (ErrArg err) s = (Normal, s)"
  using assms by (auto simp add: wrapCallback_def emitError_def errorForEvent_def)

text \<open>
  So \<^verbatim>\<open>unfetchDoc\<close> of a document that is not fetched, with a completion callback that throws
  \<^verbatim>\<open>null\<close>, ends in the \<^verbatim>\<open>TypeError\<close>, and the history holds the call of the callback and no
  \<open>error\<close> event.
\<close>

theorem wrapCallback_null_propagates_witness:
  "callWrapped E0 (emitMutation E0 1) (wrapCallback (Some cbNull)) NoArgs stDoc
     = (Thrown (readError ''null''), stDoc\<lparr>trace := [CallbackCall NoArgs]\<rparr>) \<and>
   unfetchDoc E0 1 sc0 ''docs'' ''1'' (Some cbNull) stDoc
     = (Thrown (readError ''null''), stDoc\<lparr>trace := [CallbackCall NoArgs]\<rparr>) \<and>
   callWrapped E0 (emitMutation E0 1) (wrapCallback None) (ErrArg NullVal) stDoc = (Normal, stDoc)"
proof -
  have w: "runCmds (emitMutation E0 1) (cbNull (trace stDoc) NoArgs)
      (stDoc\<lparr>trace := trace stDoc @ [CallbackCall NoArgs]\<rparr>)
      = (Thrown NullVal, stDoc\<lparr>trace := [CallbackCall NoArgs]\<rparr>)"
    by (simp add: cbNull_def stDoc_def st0_def)
  have n: "(NullVal :: nat thrown) = NullVal \<or> (NullVal :: nat thrown) = UndefinedVal" by simp
  from wrapCallback_null_propagates [where emit = "emitMutation E0 1" and cb = cbNull
      and s = stDoc and args = NoArgs and err = NullVal
      and ?s1.0 = "stDoc\<lparr>trace := [CallbackCall NoArgs]\<rparr>" and E = E0, OF w n]
  have a: "callWrapped E0 (emitMutation E0 1) (wrapCallback (Some cbNull)) NoArgs stDoc
       = (Thrown (readError ''null''), stDoc\<lparr>trace := [CallbackCall NoArgs]\<rparr>)"
    and b: "callWrapped E0 (emitMutation E0 1) (wrapCallback None) (ErrArg NullVal) stDoc
       = (Normal, stDoc)"
    by simp_all
  have z: "counterGet (fetchedDocs stDoc) ''docs'' ''1'' = 0"
    by (simp add: counterGet_def stDoc_def st0_def)
  have u: "stDoc\<lparr>contexts := contextUnfetchDoc E0 sc0 ''docs'' ''1'' (contexts stDoc)\<rparr> = stDoc"
    by (simp add: stDoc_def st0_def)
  have "unfetchDoc E0 1 sc0 ''docs'' ''1'' (Some cbNull) stDoc
      = callWrapped E0 (emitMutation E0 1) (wrapCallback (Some cbNull)) NoArgs stDoc"
    unfolding unfetchDoc_def Let_def u using z by simp
  with a have c: "unfetchDoc E0 1 sc0 ''docs'' ''1'' (Some cbNull) stDoc
      = (Thrown (readError ''null''), stDoc\<lparr>trace := [CallbackCall NoArgs]\<rparr>)"
    by simp
  from a c b show ?thesis by blast
qed

subsection \<open>Scope derivation\<close>

lemma map_of_objectAssign:
  "distinct (map fst source) \<Longrightarrow>
   map_of (objectAssign target source) = map_of target ++ map_of source"
proof (induction source arbitrary: target)
  case Nil
  then show ?case by (simp add: objectAssign_def)
next
  case (Cons kv source)
  obtain k v where kv: "kv = (k, v)" by (cases kv)
  from Cons.prems kv have nk: "map_of source k = None" and d: "distinct (map fst source)"
    by (auto simp: map_of_eq_None_iff)
  have e: "objectAssign target (kv # source) = objectAssign (AList.update k v target) source"
    by (simp add: objectAssign_def kv)
  have "map_of (objectAssign (AList.update k v target) source) =
      map_of (AList.update k v target) ++ map_of source"
    by (rule Cons.IH [OF d])
  then have "map_of (objectAssign target (kv # source)) = (map_of target)(k \<mapsto> v) ++ map_of source"
    by (simp only: e update_conv')
  also have "\<dots> = map_of target ++ map_of (kv # source)"
    using nk by (auto simp: kv map_add_def fun_eq_iff split: option.splits)
  finally show ?case .
qed

lemma distinct_objectAssign:
  "distinct (map fst target) \<Longrightarrow> distinct (map fst (objectAssign target source))"
  unfolding objectAssign_def
  by (induction source arbitrary: target) (auto simp: distinct_update)

text \<open>
  Claim C7. For a scope in the store, an object and a parent context with unique keys,
  \<^verbatim>\<open>pass(object, invert)\<close> returns a new scope and leaves every scope of the store,
  the parent among them, as it was. The context of the new scope maps a key to the value of
  the object when the object has the key and \<open>invert\<close> is false, to the value of the parent
  context when the parent has the key and \<open>invert\<close> is true, and otherwise to the value of
  the other of the two.
\<close>

theorem Model_pass_context:
  assumes "this < length ms" and "distinct (map fst object)"
    and "distinct (map fst (pass (ms ! this)))"
  shows "fst (Model_pass this object invert ms) = length ms \<and>
     length (snd (Model_pass this object invert ms)) = Suc (length ms) \<and>
     (\<forall>j < length ms. snd (Model_pass this object invert ms) ! j = ms ! j) \<and>
     silent (snd (Model_pass this object invert ms) ! length ms) = silent (ms ! this) \<and>
     eventContext (snd (Model_pass this object invert ms) ! length ms) = eventContext (ms ! this) \<and>
     distinct (map fst (pass (snd (Model_pass this object invert ms) ! length ms))) \<and>
     (\<forall>k. map_of (pass (snd (Model_pass this object invert ms) ! length ms)) k =
        (if invert
         then (case map_of (pass (ms ! this)) k of Some v \<Rightarrow> Some v | None \<Rightarrow> map_of object k)
         else (case map_of object k of Some v \<Rightarrow> Some v | None \<Rightarrow> map_of (pass (ms ! this)) k)))"
proof -
  let ?p = "if invert
            then objectAssign (objectAssign [] object) (pass (ms ! this))
            else objectAssign (objectAssign [] (pass (ms ! this))) object"
  have r: "Model_pass this object invert ms = (length ms, ms @ [(ms ! this)\<lparr>pass := ?p\<rparr>])"
    using assms(1) by (simp add: Model_pass_def child_def nth_append Let_def)
  have d: "distinct (map fst ?p)" by (simp add: distinct_objectAssign)
  have m: "map_of ?p = (if invert then map_of object ++ map_of (pass (ms ! this))
                        else map_of (pass (ms ! this)) ++ map_of object)"
    using assms(2,3) by (simp add: map_of_objectAssign)
  show ?thesis unfolding r using d m
    by (auto simp: nth_append map_add_def split: option.splits)
qed

theorem Model_pass_context_witness:
  "pass (snd (Model_pass 1 toY True (snd (Model_pass 0 fromX False [sc0]))) ! 2)
     = [(''to'', 2), (''from'', 1)] \<and>
   pass (snd (Model_pass 1 toY False (snd (Model_pass 0 fromX False [sc0]))) ! 2)
     = [(''from'', 3), (''to'', 2)] \<and>
   pass (snd (Model_pass 1 toY True (snd (Model_pass 0 fromX False [sc0]))) ! 1) = [(''from'', 1)]"
proof -
  let ?ms = "snd (Model_pass 0 fromX False [sc0])"
  have ms: "?ms = [sc0, sc0\<lparr>pass := [(''from'', 1)]\<rparr>]"
    by (simp add: Model_pass_def child_def objectAssign_def fromX_def sc0_def)
  have h1: "1 < length ?ms" unfolding ms by simp
  have h2: "distinct (map fst toY)" by (simp add: toY_def)
  have h3: "distinct (map fst (pass (?ms ! 1)))" unfolding ms by simp
  have a: "pass (snd (Model_pass 1 toY True ?ms) ! 2) = [(''to'', 2), (''from'', 1)]"
    unfolding ms by (simp add: Model_pass_def child_def objectAssign_def toY_def sc0_def)
  have b: "pass (snd (Model_pass 1 toY False ?ms) ! 2) = [(''from'', 3), (''to'', 2)]"
    unfolding ms by (simp add: Model_pass_def child_def objectAssign_def toY_def sc0_def)
  from Model_pass_context [OF h1 h2 h3, of True]
  have "\<forall>j < length ?ms. snd (Model_pass 1 toY True ?ms) ! j = ?ms ! j" by blast
  with h1 have "snd (Model_pass 1 toY True ?ms) ! 1 = ?ms ! 1" by blast
  then have c: "pass (snd (Model_pass 1 toY True ?ms) ! 1) = [(''from'', 1)]"
    unfolding ms by simp
  from a b c show ?thesis by blast
qed

subsection \<open>Listener registration\<close>

lemma scanSegments_rejects:
  "len = i + length segs \<Longrightarrow> Suc j < length segs \<Longrightarrow> segs ! j = ''**'' \<Longrightarrow>
   scanSegments len i segs captureIndicies remainingIndex = Inl patternError"
proof (induction segs arbitrary: i j captureIndicies remainingIndex)
  case Nil
  then show ?case by simp
next
  case (Cons s segs)
  show ?case
  proof (cases j)
    case 0
    with Cons.prems show ?thesis by auto
  next
    case (Suc j')
    with Cons.prems have a: "len = Suc i + length segs" "Suc j' < length segs" "segs ! j' = ''**''"
      by simp_all
    from Cons.IH [OF a] Cons.prems(1,2) show ?thesis by auto
  qed
qed

lemma createMutationListener_rejects:
  "Suc j < length (splitDot pattern) \<Longrightarrow> splitDot pattern ! j = ''**'' \<Longrightarrow>
   createMutationListener pattern ctx cb = Inl patternError"
  by (simp add: createMutationListener_def Let_def scanSegments_rejects [where j = j and i = 0])

lemma splitDot_not_Nil [simp]: "splitDot s \<noteq> []"
  by (induction s) (auto split: list.splits)

lemma splitDot_append:
  "splitDot (xs @ ys) =
     butlast (splitDot xs) @ [last (splitDot xs) @ hd (splitDot ys)] @ tl (splitDot ys)"
proof (induction xs)
  case Nil
  then show ?case by simp
next
  case (Cons c xs)
  then show ?case by (cases "splitDot xs") (auto split: list.splits)
qed

lemma normalizePattern_cases:
  "normalizePattern p = p \<or>
   (\<exists>q. p = q @ ''**'' \<and> normalizePattern p = q @ ''.**'')"
proof (cases "normalizePattern p = p")
  case True
  then show ?thesis by simp
next
  case False
  let ?n = "length p"
  from False have c: "charAt p (int ?n - 1) = ''*''" "charAt p (int ?n - 1 - 1) = ''*''"
      "charAt p (int ?n - 1 - 2) \<noteq> []"
      and r: "normalizePattern p = take (nat (int ?n - 1 - 1)) p @ ''.**''"
    by (auto simp: normalizePattern_def Let_def split: if_splits)
  from c(3) have n3: "3 \<le> ?n" by (auto simp: charAt_def split: if_splits)
  with c(1,2) have l: "p ! (?n - 1) = CHR ''*''" "p ! (?n - 2) = CHR ''*''"
    by (auto simp: charAt_def nat_diff_distrib split: if_splits)
  have k: "nat (int ?n - 1 - 1) = ?n - 2" using n3 by simp
  have "drop (?n - 2) p = [p ! (?n - 2), p ! (?n - 1)]"
  proof -
    have "drop (?n - 2) p = p ! (?n - 2) # drop (Suc (?n - 2)) p"
      using n3 by (intro Cons_nth_drop_Suc [symmetric]) simp
    also have "Suc (?n - 2) = ?n - 1" using n3 by simp
    also have "drop (?n - 1) p = p ! (?n - 1) # drop (Suc (?n - 1)) p"
      using n3 by (intro Cons_nth_drop_Suc [symmetric]) simp
    finally show ?thesis using n3 by simp
  qed
  with l have "drop (?n - 2) p = ''**''" by simp
  then have "p = take (?n - 2) p @ ''**''" by (metis append_take_drop_id)
  with r k show ?thesis by auto
qed

lemma normalizePattern_keeps:
  assumes "Suc j < length (splitDot p)" and "splitDot p ! j = ''**''"
  shows "Suc j < length (splitDot (normalizePattern p)) \<and> splitDot (normalizePattern p) ! j = ''**''"
proof -
  from normalizePattern_cases [of p] show ?thesis
  proof
    assume "normalizePattern p = p"
    with assms show ?thesis by simp
  next
    assume "\<exists>q. p = q @ ''**'' \<and> normalizePattern p = q @ ''.**''"
    then obtain q where p: "p = q @ ''**''" and np: "normalizePattern p = q @ ''.**''" by blast
    let ?S = "splitDot q"
    have s1: "splitDot p = butlast ?S @ [last ?S @ ''**'']"
      unfolding p by (simp add: splitDot_append)
    have s2: "splitDot (normalizePattern p) = ?S @ [''**'']"
      unfolding np by (simp add: splitDot_append)
    from assms(1) s1 have j: "j < length (butlast ?S)" by simp
    with assms(2) s1 have "butlast ?S ! j = ''**''" by (simp add: nth_append)
    with j have "?S ! j = ''**''" by (simp add: nth_butlast)
    with j show ?thesis unfolding s2 by (simp add: nth_append)
  qed
qed

text \<open>
  Claim C9, as amended. In a registration for a type that has a listener tree, a pattern
  with a segment \<open>**\<close> that is not its last segment makes \<^verbatim>\<open>_addMutationListener\<close> throw
  the pattern error and leaves the state, and so the tree, as it was. A pattern that is
  absent or empty does not fail: a listener with the pattern \<open>**\<close> is added to the tree.
\<close>

theorem malformed_pattern_registration:
  assumes "mutationListeners st ty = Some tree"
    and "listenerArgs E this arg1 arg2 arg3 = Inr (pattern, options, cb)"
  shows "(\<forall>p j. pattern = Some p \<and> Suc j < length (splitDot p) \<and> splitDot p ! j = ''**'' \<longrightarrow>
            addMutationListener E this ty arg1 arg2 arg3 st = (Inl patternError, st)) \<and>
         (pattern = None \<or> pattern = Some [] \<longrightarrow>
            (\<exists>l. addMutationListener E this ty arg1 arg2 arg3 st =
                    (Inr (Some l),
                     snd (addMutationListener E this ty arg1 arg2 arg3 st)) \<and>
                  patternSegments l = [''**''] \<and>
                  mutationListeners (snd (addMutationListener E this ty arg1 arg2 arg3 st)) ty =
                    Some (addListener E tree [''**''] l)))"
proof -
  have a: "addMutationListener E this ty arg1 arg2 arg3 st = (Inl patternError, st)"
    if h: "pattern = Some p \<and> Suc j < length (splitDot p) \<and> splitDot p ! j = ''**''" for p j
  proof -
    from h have ne: "p \<noteq> []" by auto
    from h normalizePattern_keeps [of j p]
    have k: "Suc j < length (splitDot (normalizePattern p))"
        "splitDot (normalizePattern p) ! j = ''**''" by simp_all
    have "getMutationListener E this ty arg1 arg2 arg3 = Inl patternError"
      using assms(2) h ne
      by (simp add: getMutationListener_def createMutationListenerLegacy_def Let_def
          createMutationListener_rejects [OF k])
    with assms(1) show ?thesis by (simp add: addMutationListener_def)
  qed
  have b: "\<exists>l. addMutationListener E this ty arg1 arg2 arg3 st =
                    (Inr (Some l),
                     snd (addMutationListener E this ty arg1 arg2 arg3 st)) \<and>
                  patternSegments l = [''**''] \<and>
                  mutationListeners (snd (addMutationListener E this ty arg1 arg2 arg3 st)) ty =
                    Some (addListener E tree [''**''] l)"
    if h: "pattern = None \<or> pattern = Some []"
  proof -
    let ?l = "\<lparr>patternSegments = [''**''], listenerContext = eventContext this,
               fn = (\<lambda>tr segments event. cb tr (RawArgs segments event))\<rparr>"
    have "getMutationListener E this ty arg1 arg2 arg3 = Inr ?l"
      using assms(2) h by (auto simp: getMutationListener_def)
    with assms(1) have "addMutationListener E this ty arg1 arg2 arg3 st =
                    (Inr (Some ?l),
                     snd (addMutationListener E this ty arg1 arg2 arg3 st)) \<and>
                  patternSegments ?l = [''**''] \<and>
                  mutationListeners (snd (addMutationListener E this ty arg1 arg2 arg3 st)) ty =
                    Some (addListener E tree [''**''] ?l)"
      by (simp add: addMutationListener_def Let_def split: option.splits)
    then show ?thesis by blast
  qed
  from a b show ?thesis by blast
qed

theorem malformed_pattern_registration_witness:
  "addMutationListener E0 sc0 ''change'' (StrArg ''a.**.b'') (FunArg cbQuiet) Undefined (st0 treesEmpty)
     = (Inl patternError, st0 treesEmpty) \<and>
   mutationListeners (st0 treesEmpty) ''change'' = Some []"
proof -
  have h1: "mutationListeners (st0 treesEmpty) ''change'' = Some []"
    by (simp add: st0_def treesEmpty_def)
  have h2: "listenerArgs E0 sc0 (StrArg ''a.**.b'') (FunArg cbQuiet) Undefined =
      Inr (Some ''a.**.b'', Undefined, cbQuiet)"
    by (simp add: listenerArgs_def E0_def)
  have h3: "Suc 1 < length (splitDot ''a.**.b'') \<and> splitDot ''a.**.b'' ! 1 = ''**''" by simp
  from malformed_pattern_registration [OF h1 h2] h3
  have "addMutationListener E0 sc0 ''change'' (StrArg ''a.**.b'') (FunArg cbQuiet) Undefined
      (st0 treesEmpty) = (Inl patternError, st0 treesEmpty)" by blast
  then show ?thesis using h1 by (rule conjI)
qed

text \<open>
  The claim as stated fails for the empty pattern: registering \<^verbatim>\<open>on('change', '', cb)\<close> on
  the root scope returns a listener, and the tree holds a listener with pattern \<open>**\<close>.
\<close>

theorem empty_pattern_counterexample:
  "\<not> isl (fst (addMutationListener E0 sc0 ''change'' (StrArg []) (FunArg cbQuiet) Undefined
               (st0 treesEmpty))) \<and>
   map patternSegments
     (the (mutationListeners
        (snd (addMutationListener E0 sc0 ''change'' (StrArg []) (FunArg cbQuiet) Undefined
               (st0 treesEmpty))) ''change'')) = [[''**'']]"
  by (simp add: addMutationListener_def getMutationListener_def listenerArgs_def E0_def sc0_def
      st0_def treesEmpty_def)

section \<open>Properties of the document references\<close>

text \<open>
  Claim C3. On a client, a model created with the option \<^verbatim>\<open>unloadDelay: 5000\<close> has the
  unload delay 0: \<^verbatim>\<open>unfetchDoc\<close> of a document fetched twice decrements the counter at once
  and arms no timer.
\<close>

theorem unloadDelay_option_ignored:
  "unloadDelay (initSubscriptions \<lparr>optFetchOnly = False, optUnloadDelay = Some 5000\<rparr> False stDoc) = 0 \<and>
   unfetchDoc E0 1 sc0 ''docs'' ''1'' None
     ((initSubscriptions \<lparr>optFetchOnly = False, optUnloadDelay = Some 5000\<rparr> False stDoc)
        \<lparr>fetchedDocs := (\<lambda>c i. 2)\<rparr>)
   = (Normal, (initSubscriptions \<lparr>optFetchOnly = False, optUnloadDelay = Some 5000\<rparr> False stDoc)
        \<lparr>fetchedDocs := (\<lambda>c i. 2)(''docs'' := (\<lambda>i. 2)(''1'' := 1))\<rparr>)"
  by (simp add: initSubscriptions_def truthy_def unfetchDoc_def finishUnfetchDoc_def
      counterGet_def counterDecrement_def wrapCallback_def Let_def)

lemma queryHolds_member:
  "(hash, query) \<in> set qs \<Longrightarrow> 0 < fetchCount query \<or> 0 < subscribeCount query \<Longrightarrow>
   idMap query ident = Some k \<Longrightarrow> 0 < k \<Longrightarrow> queryHolds ident qs"
  by (induction qs) auto

text \<open>
  Claim C4. When the direct fetched counter or the direct subscribed counter of the document
  is positive, or a query of its collection with a positive fetch or subscribe count has a
  positive \<^verbatim>\<open>idMap\<close> entry for it, \<^verbatim>\<open>_hasDocReferences\<close> holds and \<^verbatim>\<open>_maybeUnloadDoc\<close> returns
  with the state unchanged. When the document exists, is not referenced and its external
  handle has pending operations, \<^verbatim>\<open>_maybeUnloadDoc\<close> only hands a retry to
  \<^verbatim>\<open>whenNothingPending\<close>: the document stays and the handle is not destroyed.
\<close>

theorem maybeUnloadDoc_keeps_referenced:
  "((0 < counterGet (fetchedDocs st) c i \<or> 0 < counterGet (subscribedDocs st) c i \<or>
     (\<exists>qs hash query k. queries st c = Some qs \<and> (hash, query) \<in> set qs \<and>
        (0 < fetchCount query \<or> 0 < subscribeCount query) \<and> idMap query i = Some k \<and> 0 < k)) \<longrightarrow>
    hasDocReferences st c i \<and> maybeUnloadDoc E n this c i st = (Normal, st)) \<and>
   (getDoc st c i = Some doc \<and> \<not> hasDocReferences st c i \<and> shareDoc doc = Some h \<and>
    hasPending (share st h) \<longrightarrow>
    maybeUnloadDoc E n this c i st = (Normal, shareHand h (RetryMaybeUnloadDoc this c i) st) \<and>
    getDoc (shareHand h (RetryMaybeUnloadDoc this c i) st) c i = Some doc \<and>
    destroyed (share (shareHand h (RetryMaybeUnloadDoc this c i) st) h) = destroyed (share st h) \<and>
    handed (share (shareHand h (RetryMaybeUnloadDoc this c i) st) h) =
      handed (share st h) @ [RetryMaybeUnloadDoc this c i] \<and>
    trace (shareHand h (RetryMaybeUnloadDoc this c i) st) = trace st)"
proof -
  have a: "hasDocReferences st c i \<and> maybeUnloadDoc E n this c i st = (Normal, st)"
    if h: "0 < counterGet (fetchedDocs st) c i \<or> 0 < counterGet (subscribedDocs st) c i \<or>
     (\<exists>qs hash query k. queries st c = Some qs \<and> (hash, query) \<in> set qs \<and>
        (0 < fetchCount query \<or> 0 < subscribeCount query) \<and> idMap query i = Some k \<and> 0 < k)"
  proof -
    from h have "hasDocReferences st c i"
      by (auto simp: hasDocReferences_def dest: queryHolds_member split: option.splits)
    then show ?thesis by (simp add: maybeUnloadDoc_def split: option.splits)
  qed
  have b: "maybeUnloadDoc E n this c i st = (Normal, shareHand h (RetryMaybeUnloadDoc this c i) st) \<and>
    getDoc (shareHand h (RetryMaybeUnloadDoc this c i) st) c i = Some doc \<and>
    destroyed (share (shareHand h (RetryMaybeUnloadDoc this c i) st) h) = destroyed (share st h) \<and>
    handed (share (shareHand h (RetryMaybeUnloadDoc this c i) st) h) =
      handed (share st h) @ [RetryMaybeUnloadDoc this c i] \<and>
    trace (shareHand h (RetryMaybeUnloadDoc this c i) st) = trace st"
    if "getDoc st c i = Some doc \<and> \<not> hasDocReferences st c i \<and> shareDoc doc = Some h \<and>
        hasPending (share st h)"
    using that by (simp add: maybeUnloadDoc_def shareHand_def getDoc_def)
  from a b show ?thesis by blast
qed

theorem maybeUnloadDoc_keeps_referenced_witness:
  "(maybeUnloadDoc E0 2 sc0 ''docs'' ''1'' stDoc = (Normal, stDoc) \<and>
    getDoc stDoc ''docs'' ''1'' = Some \<lparr>docData = 7, shareDoc = Some 0\<rparr> \<and>
    counterGet (fetchedDocs stDoc) ''docs'' ''1'' = 0 \<and>
    counterGet (subscribedDocs stDoc) ''docs'' ''1'' = 0) \<and>
   maybeUnloadDoc E0 2 sc0 ''docs'' ''1'' stPending =
     (Normal, shareHand 0 (RetryMaybeUnloadDoc sc0 ''docs'' ''1'') stPending)"
proof -
  have p1: "getDoc stPending ''docs'' ''1'' = Some \<lparr>docData = 7, shareDoc = Some 0\<rparr>"
    by (simp add: getDoc_def stPending_def stDoc_def)
  have p2: "\<not> hasDocReferences stPending ''docs'' ''1''"
    by (simp add: hasDocReferences_def stPending_def stDoc_def st0_def counterGet_def)
  have p3: "shareDoc \<lparr>docData = 7::nat, shareDoc = Some 0\<rparr> = Some 0" by simp
  have p4: "hasPending (share stPending 0)" by (simp add: stPending_def)
  from maybeUnloadDoc_keeps_referenced [of stPending "''docs''" "''1''" E0 2 sc0
      "\<lparr>docData = 7, shareDoc = Some 0\<rparr>" 0] p1 p2 p3 p4
  have pend: "maybeUnloadDoc E0 2 sc0 ''docs'' ''1'' stPending =
     (Normal, shareHand 0 (RetryMaybeUnloadDoc sc0 ''docs'' ''1'') stPending)"
    by blast
  have q: "queries stDoc ''docs'' =
      Some [(''q'', \<lparr>subscribeCount = 1, fetchCount = 0, idMap = [''1'' \<mapsto> 1]\<rparr>)]"
    by (simp add: stDoc_def)
  have "\<exists>qs hash query k. queries stDoc ''docs'' = Some qs \<and> (hash, query) \<in> set qs \<and>
        (0 < fetchCount query \<or> 0 < subscribeCount query) \<and> idMap query ''1'' = Some k \<and> 0 < k"
    unfolding q by (intro exI [of _ "[(''q'', \<lparr>subscribeCount = 1, fetchCount = 0, idMap = [''1'' \<mapsto> 1]\<rparr>)]"]
        exI [of _ "''q''"] exI [of _ "\<lparr>subscribeCount = 1, fetchCount = 0, idMap = [''1'' \<mapsto> 1]\<rparr>"]
        exI [of _ 1]) simp
  with maybeUnloadDoc_keeps_referenced [of stDoc "''docs''" "''1''" E0 2 sc0]
  have "maybeUnloadDoc E0 2 sc0 ''docs'' ''1'' stDoc = (Normal, stDoc)" by blast
  then have "maybeUnloadDoc E0 2 sc0 ''docs'' ''1'' stDoc = (Normal, stDoc) \<and>
    getDoc stDoc ''docs'' ''1'' = Some \<lparr>docData = 7, shareDoc = Some 0\<rparr> \<and>
    counterGet (fetchedDocs stDoc) ''docs'' ''1'' = 0 \<and>
    counterGet (subscribedDocs stDoc) ''docs'' ''1'' = 0"
    by (simp add: getDoc_def stDoc_def st0_def counterGet_def)
  then show ?thesis using pend by (rule conjI)
qed



text \<open>
  Claim C10. When the fetched count of the document is 0, \<^verbatim>\<open>unfetchDoc\<close> is one call of the
  wrapped callback with no arguments, in the state in which only the loading context was
  told of the call; likewise \<^verbatim>\<open>unsubscribeDoc\<close> when the subscribed count is 0. Such a call
  without a callback changes nothing. With a callback, the body of the callback runs at
  once; it leaves the counters, the timers, the documents and the external handles as they
  were, and its exception, if any, goes to \<^verbatim>\<open>_emitError\<close>.
\<close>

theorem unfetch_unsubscribe_without_count:
  "(counterGet (fetchedDocs st) c i = 0 \<longrightarrow>
      unfetchDoc E n this c i cb st =
        callWrapped E (emitMutation E n) (wrapCallback cb) NoArgs
          (st\<lparr>contexts := contextUnfetchDoc E this c i (contexts st)\<rparr>)) \<and>
   (counterGet (subscribedDocs st) c i = 0 \<longrightarrow>
      unsubscribeDoc E n this c i cb st =
        callWrapped E (emitMutation E n) (wrapCallback cb) NoArgs
          (st\<lparr>contexts := contextUnsubscribeDoc E this c i (contexts st)\<rparr>)) \<and>
   callWrapped E (emitMutation E n) (wrapCallback None) NoArgs s = (Normal, s) \<and>
   (runCmds (emitMutation E n) (f (trace s) NoArgs) (s\<lparr>trace := trace s @ [CallbackCall NoArgs]\<rparr>)
      = (out, s') \<longrightarrow>
    callWrapped E (emitMutation E n) (wrapCallback (Some f)) NoArgs s =
      (case out of Normal \<Rightarrow> (Normal, s') | Thrown err \<Rightarrow> emitError E err None s') \<and>
    prefix (trace s @ [CallbackCall NoArgs]) (trace s') \<and>
    fetchedDocs s' = fetchedDocs s \<and> subscribedDocs s' = subscribedDocs s \<and>
    timers s' = timers s \<and> collections s' = collections s \<and> share s' = share s)"
proof -
  have a: "counterGet (fetchedDocs st) c i = 0 \<longrightarrow>
      unfetchDoc E n this c i cb st =
        callWrapped E (emitMutation E n) (wrapCallback cb) NoArgs
          (st\<lparr>contexts := contextUnfetchDoc E this c i (contexts st)\<rparr>)"
    by (simp add: unfetchDoc_def Let_def counterGet_def)
  have b: "counterGet (subscribedDocs st) c i = 0 \<longrightarrow>
      unsubscribeDoc E n this c i cb st =
        callWrapped E (emitMutation E n) (wrapCallback cb) NoArgs
          (st\<lparr>contexts := contextUnsubscribeDoc E this c i (contexts st)\<rparr>)"
    by (simp add: unsubscribeDoc_def Let_def counterGet_def)
  have c: "callWrapped E (emitMutation E n) (wrapCallback None) NoArgs s = (Normal, s)"
    by (simp add: wrapCallback_def)
  have d: "callWrapped E (emitMutation E n) (wrapCallback (Some f)) NoArgs s =
      (case out of Normal \<Rightarrow> (Normal, s') | Thrown err \<Rightarrow> emitError E err None s') \<and>
    prefix (trace s @ [CallbackCall NoArgs]) (trace s') \<and>
    fetchedDocs s' = fetchedDocs s \<and> subscribedDocs s' = subscribedDocs s \<and>
    timers s' = timers s \<and> collections s' = collections s \<and> share s' = share s"
    if run: "runCmds (emitMutation E n) (f (trace s) NoArgs)
        (s\<lparr>trace := trace s @ [CallbackCall NoArgs]\<rparr>) = (out, s')"
  proof -
    from runCmds_frame [OF emitMutation_framed run]
    have fr: "frame (s\<lparr>trace := trace s @ [CallbackCall NoArgs]\<rparr>) s'" .
    then have "prefix (trace s @ [CallbackCall NoArgs]) (trace s')"
      by (auto dest: frame_prefix)
    moreover from fr have "fetchedDocs s' = fetchedDocs s \<and> subscribedDocs s' = subscribedDocs s \<and>
        timers s' = timers s \<and> collections s' = collections s \<and> share s' = share s"
      by (auto simp: frame_def)
    moreover from run have "callWrapped E (emitMutation E n) (wrapCallback (Some f)) NoArgs s =
        (case out of Normal \<Rightarrow> (Normal, s') | Thrown err \<Rightarrow> emitError E err None s')"
      by (simp add: wrapCallback_def split: outcome.splits)
    ultimately show ?thesis by blast
  qed
  from a b c d show ?thesis by blast
qed

theorem unfetch_unsubscribe_without_count_witness:
  "counterGet (fetchedDocs stDoc) ''docs'' ''1'' = 0 \<and>
   unfetchDoc E0 1 sc0 ''docs'' ''1'' (Some cbQuiet) stDoc =
     (Normal, stDoc\<lparr>trace := [CallbackCall NoArgs]\<rparr>) \<and>
   unsubscribeDoc E0 1 sc0 ''docs'' ''1'' None stDoc = (Normal, stDoc)"
proof -
  have z: "counterGet (fetchedDocs stDoc) ''docs'' ''1'' = 0"
      "counterGet (subscribedDocs stDoc) ''docs'' ''1'' = 0"
    by (simp_all add: counterGet_def stDoc_def st0_def)
  have u: "stDoc\<lparr>contexts := contextUnfetchDoc E0 sc0 ''docs'' ''1'' (contexts stDoc)\<rparr> = stDoc"
      "stDoc\<lparr>contexts := contextUnsubscribeDoc E0 sc0 ''docs'' ''1'' (contexts stDoc)\<rparr> = stDoc"
    by (simp_all add: stDoc_def st0_def)
  have r: "runCmds (emitMutation E0 1) (cbQuiet (trace stDoc) NoArgs)
      (stDoc\<lparr>trace := trace stDoc @ [CallbackCall NoArgs]\<rparr>)
      = (Normal, stDoc\<lparr>trace := [CallbackCall NoArgs]\<rparr>)"
    by (simp add: cbQuiet_def stDoc_def st0_def)
  note inst1 = unfetch_unsubscribe_without_count [where st = stDoc and c = "''docs''" and i = "''1''"
      and E = E0 and n = 1 and this = sc0 and cb = "Some cbQuiet" and s = stDoc and f = cbQuiet
      and out = Normal and s' = "stDoc\<lparr>trace := [CallbackCall NoArgs]\<rparr>"]
  from inst1 z(1) have "unfetchDoc E0 1 sc0 ''docs'' ''1'' (Some cbQuiet) stDoc =
      callWrapped E0 (emitMutation E0 1) (wrapCallback (Some cbQuiet)) NoArgs stDoc"
    unfolding u by blast
  moreover from inst1 r have "callWrapped E0 (emitMutation E0 1) (wrapCallback (Some cbQuiet)) NoArgs stDoc =
      (case Normal of Normal \<Rightarrow> (Normal, stDoc\<lparr>trace := [CallbackCall NoArgs]\<rparr>)
       | Thrown err \<Rightarrow> emitError E0 err None (stDoc\<lparr>trace := [CallbackCall NoArgs]\<rparr>))"
    by blast
  ultimately have a: "unfetchDoc E0 1 sc0 ''docs'' ''1'' (Some cbQuiet) stDoc =
     (Normal, stDoc\<lparr>trace := [CallbackCall NoArgs]\<rparr>)"
    by simp
  note inst2 = unfetch_unsubscribe_without_count [where st = stDoc and c = "''docs''" and i = "''1''"
      and E = E0 and n = 1 and this = sc0 and cb = None and s = stDoc]
  from inst2 z(2) have "unsubscribeDoc E0 1 sc0 ''docs'' ''1'' None stDoc =
      callWrapped E0 (emitMutation E0 1) (wrapCallback None) NoArgs stDoc"
    unfolding u by blast
  moreover from inst2 have "callWrapped E0 (emitMutation E0 1) (wrapCallback None) NoArgs stDoc
      = (Normal, stDoc)" by blast
  ultimately have b: "unsubscribeDoc E0 1 sc0 ''docs'' ''1'' None stDoc = (Normal, stDoc)"
    by simp
  from z(1) a b show ?thesis by blast
qed

end
